theory Spec2Isabelle
  imports Main "HOL-Library.Multiset" "HOL-Library.Char_ord" "HOL-Library.List_Lexorder"
begin

section \<open>Strings and numbers of the host language\<close>

text \<open>
  The calendar code reads numbers out of strings with \<^verbatim>\<open>Number\<close> and
  \<^verbatim>\<open>parseInt(_, 10)\<close>, and builds its date keys with template literals. Numbers are
  modelled as unbounded integers and \<^verbatim>\<open>NaN\<close> as \<open>None\<close>. A string of the page is
  modelled by its UTF-8 encoding, a list of bytes: a character beyond ASCII is a sequence of
  two or three bytes.
\<close>

definition whiteSpace :: "string list" where
  \<comment> \<open>the white space and the line terminators of the language, which \<^verbatim>\<open>trim\<close>,
      \<^verbatim>\<open>Number\<close> and \<^verbatim>\<open>parseInt\<close> strip: U+0009 to U+000D, U+0020, U+00A0, U+1680,
      U+2000 to U+200A, U+2028, U+2029, U+202F, U+205F, U+3000 and U+FEFF, each in UTF-8\<close>
  "whiteSpace =
     [[CHR 0x09], [CHR 0x0A], [CHR 0x0B], [CHR 0x0C], [CHR 0x0D], [CHR 0x20],
      [CHR 0xC2, CHR 0xA0],
      [CHR 0xE1, CHR 0x9A, CHR 0x80],
      [CHR 0xE2, CHR 0x80, CHR 0x80], [CHR 0xE2, CHR 0x80, CHR 0x81],
      [CHR 0xE2, CHR 0x80, CHR 0x82], [CHR 0xE2, CHR 0x80, CHR 0x83],
      [CHR 0xE2, CHR 0x80, CHR 0x84], [CHR 0xE2, CHR 0x80, CHR 0x85],
      [CHR 0xE2, CHR 0x80, CHR 0x86], [CHR 0xE2, CHR 0x80, CHR 0x87],
      [CHR 0xE2, CHR 0x80, CHR 0x88], [CHR 0xE2, CHR 0x80, CHR 0x89],
      [CHR 0xE2, CHR 0x80, CHR 0x8A],
      [CHR 0xE2, CHR 0x80, CHR 0xA8], [CHR 0xE2, CHR 0x80, CHR 0xA9],
      [CHR 0xE2, CHR 0x80, CHR 0xAF],
      [CHR 0xE2, CHR 0x81, CHR 0x9F],
      [CHR 0xE3, CHR 0x80, CHR 0x80],
      [CHR 0xEF, CHR 0xBB, CHR 0xBF]]"

function dropSeqs :: "string list \<Rightarrow> string \<Rightarrow> string" where
  \<comment> \<open>the string without the sequences of \<open>ws\<close> it starts with\<close>
  "dropSeqs ws s =
     (case find (\<lambda>w. w \<noteq> [] \<and> take (length w) s = w) ws of
        None \<Rightarrow> s
      | Some w \<Rightarrow> dropSeqs ws (drop (length w) s))"
  by pat_completeness auto
termination
proof (relation "measure (\<lambda>(ws, s). length s)")
  show "wf (measure (\<lambda>(ws, s). length s))" by simp
next
  fix ws :: "string list" and s w :: string
  assume "find (\<lambda>w. w \<noteq> [] \<and> take (length w) s = w) ws = Some w"
  then have n: "w \<noteq> []" and t: "take (length w) s = w" by (auto simp: find_Some_iff)
  from t have "length (take (length w) s) = length w" by simp
  then have "length w \<le> length s" by simp
  with n have "length s - length w < length s" by (cases w) auto
  then show "((ws, drop (length w) s), (ws, s)) \<in> measure (\<lambda>(ws, s). length s)" by simp
qed

declare dropSeqs.simps [simp del]

definition trimStart :: "string \<Rightarrow> string" where
  "trimStart s = dropSeqs whiteSpace s"

definition trimEnd :: "string \<Rightarrow> string" where
  "trimEnd s = rev (dropSeqs (map rev whiteSpace) (rev s))"

definition isDigit :: "char \<Rightarrow> bool" where
  "isDigit c = (c \<in> set ''0123456789'')"

definition trim :: "string \<Rightarrow> string" where
  \<comment> \<open>\<^verbatim>\<open>String.prototype.trim\<close>\<close>
  "trim s = trimEnd (trimStart s)"

definition digitVal :: "char \<Rightarrow> int" where
  "digitVal c = int (of_char c) - 48"

definition decimal :: "string \<Rightarrow> int" where
  "decimal ds = foldl (\<lambda>a c. 10 * a + digitVal c) 0 ds"

definition digitChar :: "nat \<Rightarrow> char" where
  "digitChar n = ''0123456789'' ! n"

fun natToString :: "nat \<Rightarrow> string" where
  "natToString n = (if n < 10 then [digitChar n] else natToString (n div 10) @ [digitChar (n mod 10)])"

declare natToString.simps [simp del]

definition numToString :: "int \<Rightarrow> string" where
  \<comment> \<open>an integer inside a template literal\<close>
  "numToString i = (if i < 0 then CHR ''-'' # natToString (nat (- i)) else natToString (nat i))"

definition unsignedDecimal :: "string \<Rightarrow> int option" where
  "unsignedDecimal t = (if t \<noteq> [] \<and> list_all isDigit t then Some (decimal t) else None)"

definition Number_str :: "string \<Rightarrow> int option" where
  \<comment> \<open>\<^verbatim>\<open>Number(s)\<close> on the strings that denote an integer in decimal: the empty
      string is 0, an optional sign and digits are their value, and everything else is
      \<^verbatim>\<open>NaN\<close>. Fractions, exponents, radix prefixes and \<^verbatim>\<open>Infinity\<close> are not
      produced by a time input and are not modelled.\<close>
  "Number_str s =
     (let t = trim s in
      case t of
        [] \<Rightarrow> Some 0
      | c # r \<Rightarrow>
          if c = CHR ''-'' then map_option uminus (unsignedDecimal r)
          else if c = CHR ''+'' then unsignedDecimal r
          else unsignedDecimal t)"

definition parseInt10 :: "string \<Rightarrow> int option" where
  \<comment> \<open>\<^verbatim>\<open>parseInt(s, 10)\<close>: leading white space, an optional sign, then the longest
      prefix of digits; \<^verbatim>\<open>NaN\<close> when there is no digit.\<close>
  "parseInt10 s =
     (let t = trimStart s;
          sgn_rest = (case t of
                        [] \<Rightarrow> (1, [])
                      | c # r \<Rightarrow> if c = CHR ''-'' then (- 1, r)
                                 else if c = CHR ''+'' then (1, r) else (1, t));
          ds = takeWhile isDigit (snd sgn_rest)
      in if ds = [] then None else Some (fst sgn_rest * decimal ds))"

fun split_str :: "char \<Rightarrow> string \<Rightarrow> string list" where
  \<comment> \<open>\<^verbatim>\<open>s.split(c)\<close> for a one-character separator\<close>
  "split_str c [] = [[]]"
| "split_str c (x # xs) =
     (if x = c then [] # split_str c xs
      else (case split_str c xs of
              [] \<Rightarrow> [[x]]
            | w # ws \<Rightarrow> (x # w) # ws))"

definition localeCompare :: "string \<Rightarrow> string \<Rightarrow> int" where
  \<comment> \<open>\<^verbatim>\<open>a.localeCompare(b)\<close>, modelled as the comparison of the strings character
      by character: on the values of a time input (empty, or zero-padded \<^verbatim>\<open>HH:MM\<close>)
      collation and character order agree.\<close>
  "localeCompare a b = (if a < b then - 1 else if a = b then 0 else 1)"

section \<open>Dates\<close>

text \<open>
  A \<^verbatim>\<open>Date\<close> is modelled by its local fields; the month is 0-based as in the host
  language. Time values are local milliseconds: the offset of the local zone is taken as
  constant, so that it cancels in every comparison the code makes.
\<close>

record jsDate =
  fullYear :: int
  month :: int
  date :: int
  hours :: int
  minutes :: int
  seconds :: int
  milliseconds :: int

definition msPerDay :: int where
  "msPerDay = 86400000"

definition daysFromCivil :: "int \<Rightarrow> int \<Rightarrow> int" where
  \<comment> \<open>days from 1970-01-01 to the first day of month \<open>m\<close> (0-based, 0..11) of year \<open>y\<close>\<close>
  "daysFromCivil y m =
     (let y' = (if m \<le> 1 then y - 1 else y);
          era = y' div 400;
          yoe = y' - era * 400;
          mp = (if m \<le> 1 then m + 10 else m - 2);
          doy = (153 * mp + 2) div 5;
          doe = yoe * 365 + yoe div 4 - yoe div 100 + doy
      in era * 146097 + doe - 719468)"

definition MakeDay :: "int \<Rightarrow> int \<Rightarrow> int \<Rightarrow> int" where
  \<comment> \<open>the day number of year, month, day of month; months outside 0..11 carry into the year\<close>
  "MakeDay y m d = daysFromCivil (y + m div 12) (m mod 12) + d - 1"

definition getTime :: "jsDate \<Rightarrow> int" where
  "getTime d =
     MakeDay (fullYear d) (month d) (date d) * msPerDay
       + hours d * 3600000 + minutes d * 60000 + seconds d * 1000 + milliseconds d"

definition newDate5 :: "int \<Rightarrow> int \<Rightarrow> int \<Rightarrow> int option \<Rightarrow> int option \<Rightarrow> int option" where
  \<comment> \<open>the time value of \<^verbatim>\<open>new Date(y, m, d, h, min)\<close>; a \<^verbatim>\<open>NaN\<close> argument gives an
      invalid date, and a year in 0..99 means 1900 + year\<close>
  "newDate5 y m d h mi =
     (case (h, mi) of
        (Some hh, Some mm) \<Rightarrow>
          Some (MakeDay (if 0 \<le> y \<and> y \<le> 99 then 1900 + y else y) m d * msPerDay
                + hh * 3600000 + mm * 60000)
      | _ \<Rightarrow> None)"

definition dateKey :: "int \<Rightarrow> int \<Rightarrow> int \<Rightarrow> string" where
  \<comment> \<open>\<^verbatim>\<open>`${year}-${month}-${day}`\<close>\<close>
  "dateKey y m d = numToString y @ ''-'' @ numToString m @ ''-'' @ numToString d"

section \<open>The calendar state\<close>

text \<open>
  The variables of the page that the calendar code shares: the store \<^verbatim>\<open>events\<close>, a
  mapping from date keys to lists of events; the entry \<^verbatim>\<open>calendarEvents\<close> of the local
  storage, the store as it was last written; the set of the ids notified in the session; the
  date and id of the open dialog; and the displayed date. The state also records what the page
  shows: the grid of the month (each day cell with its day, its date key, whether it is the
  current day, and its events), the notifications and the alerts.
\<close>

record calEvent =
  id_ev :: int
  text_ev :: string
  time :: string
  reminder :: string

type_synonym eventStore = "string \<rightharpoonup> calEvent list"

datatype cell = EmptyCell | DayCell int string bool "calEvent list"

record state =
  events :: eventStore
  calendarEvents :: "eventStore option"
  sessionNotifiedIds :: "int set"
  currentEditingEvent :: "(string \<times> int) option"
  displayedDate :: jsDate
  calendarBody :: "cell list list"
  notifications :: "calEvent list"
  alerts :: "string list"

section \<open>The reminder scan\<close>

definition nth_opt :: "'a list \<Rightarrow> nat \<Rightarrow> 'a option" where
  \<comment> \<open>an element of an array; \<open>None\<close> is \<^verbatim>\<open>undefined\<close>\<close>
  "nth_opt xs i = (if i < length xs then Some (xs ! i) else None)"

definition eventTimeValue :: "jsDate \<Rightarrow> calEvent \<Rightarrow> int option" where
  \<comment> \<open>\<^verbatim>\<open>[hours, minutes] = event.time.split(':').map(Number)\<close>, then the date built from
      them on the day of \<open>now\<close>; a missing part is \<^verbatim>\<open>undefined\<close>, hence \<^verbatim>\<open>NaN\<close>\<close>
  "eventTimeValue now e =
     (let parts = map Number_str (split_str CHR '':'' (time e));
          h = Option.bind (nth_opt parts 0) (\<lambda>x. x);
          mi = Option.bind (nth_opt parts 1) (\<lambda>x. x)
      in newDate5 (fullYear now) (month now) (date now) h mi)"

definition isDue :: "jsDate \<Rightarrow> calEvent \<Rightarrow> bool" where
  \<comment> \<open>the two time tests of the scan; a comparison with \<^verbatim>\<open>NaN\<close> is false\<close>
  "isDue now e =
     (let eventDate = eventTimeValue now e in
      if (case eventDate of Some t \<Rightarrow> getTime now > t | None \<Rightarrow> False) then False
      else
        (let notificationTime =
               (case (eventDate, parseInt10 (reminder e)) of
                  (Some t, Some reminderMinutes) \<Rightarrow> Some (t - reminderMinutes * 60 * 1000)
                | _ \<Rightarrow> None)
         in case notificationTime of Some n \<Rightarrow> getTime now \<ge> n | None \<Rightarrow> False))"

definition scanEvent :: "jsDate \<Rightarrow> state \<Rightarrow> calEvent \<Rightarrow> state" where
  \<comment> \<open>the body of the \<^verbatim>\<open>forEach\<close>\<close>
  "scanEvent now st e =
     (if reminder e = [] \<or> reminder e = ''none'' \<or> time e = [] \<or> id_ev e \<in> sessionNotifiedIds st
      then st
      else if isDue now e
      then st\<lparr>notifications := notifications st @ [e],
              sessionNotifiedIds := insert (id_ev e) (sessionNotifiedIds st)\<rparr>
      else st)"

definition checkReminders :: "jsDate \<Rightarrow> state \<Rightarrow> state" where
  \<comment> \<open>\<open>now\<close> is the clock the function reads with \<^verbatim>\<open>getPngDate()\<close>\<close>
  "checkReminders now st =
     (let todayStr = dateKey (fullYear now) (month now) (date now);
          todaysEvents = (case events st todayStr of Some es \<Rightarrow> es | None \<Rightarrow> [])
      in foldl (scanEvent now) st todaysEvents)"

section \<open>Rendering the month\<close>

fun insertBy :: "('a \<Rightarrow> 'a \<Rightarrow> int) \<Rightarrow> 'a \<Rightarrow> 'a list \<Rightarrow> 'a list" where
  "insertBy cmp x [] = [x]"
| "insertBy cmp x (y # ys) = (if cmp x y \<le> 0 then x # y # ys else y # insertBy cmp x ys)"

definition sortBy :: "('a \<Rightarrow> 'a \<Rightarrow> int) \<Rightarrow> 'a list \<Rightarrow> 'a list" where
  \<comment> \<open>\<^verbatim>\<open>Array.prototype.sort(cmp)\<close>: the stable sort of the list under the comparator\<close>
  "sortBy cmp xs = foldr (insertBy cmp) xs []"

definition eventCompare :: "calEvent \<Rightarrow> calEvent \<Rightarrow> int" where
  \<comment> \<open>\<^verbatim>\<open>(a, b) => (a.time || '').localeCompare(b.time || '')\<close>\<close>
  "eventCompare a b = localeCompare (time a) (time b)"

definition ctorYear :: "int \<Rightarrow> int" where
  \<comment> \<open>the \<^verbatim>\<open>Date\<close> constructor reads a year in 0..99 as 1900 + year\<close>
  "ctorYear y = (if 0 \<le> y \<and> y \<le> 99 then 1900 + y else y)"

definition firstDayOf :: "int \<Rightarrow> int \<Rightarrow> int" where
  \<comment> \<open>\<^verbatim>\<open>new Date(year, month, 1).getDay()\<close>; day 0 of the epoch was a Thursday\<close>
  "firstDayOf y m = (MakeDay (ctorYear y) m 1 + 4) mod 7"

definition daysInMonthOf :: "int \<Rightarrow> int \<Rightarrow> int" where
  \<comment> \<open>\<^verbatim>\<open>new Date(year, month + 1, 0).getDate()\<close>: day 0 of the next month is the last
      day of this one, and its day of month is the length of the month\<close>
  "daysInMonthOf y m = MakeDay (ctorYear y) (m + 1) 1 - MakeDay (ctorYear y) m 1"

definition renderDay :: "string \<Rightarrow> int \<Rightarrow> int \<Rightarrow> int \<Rightarrow> eventStore \<Rightarrow> cell \<times> eventStore" where
  \<comment> \<open>a day cell: the list of the day is sorted in place, then shown\<close>
  "renderDay todayStr year mon day ev =
     (let dateStr = dateKey year mon day in
      case ev dateStr of
        None \<Rightarrow> (DayCell day dateStr (dateStr = todayStr) [], ev)
      | Some es \<Rightarrow>
          (let shown = sortBy eventCompare es
           in (DayCell day dateStr (dateStr = todayStr) shown, ev(dateStr \<mapsto> shown))))"

fun fillRow ::
  "string \<Rightarrow> int \<Rightarrow> int \<Rightarrow> int \<Rightarrow> int \<Rightarrow> int \<Rightarrow> int list \<Rightarrow> int \<Rightarrow> eventStore
     \<Rightarrow> cell list \<times> int \<times> eventStore" where
  \<comment> \<open>the inner loop over the columns \<open>j\<close> of row \<open>i\<close>; \<open>day\<close> is the loop's counter\<close>
  "fillRow todayStr year mon firstDay daysInMonth i [] day ev = ([], day, ev)"
| "fillRow todayStr year mon firstDay daysInMonth i (j # js) day ev =
     (if (i = 0 \<and> j < firstDay) \<or> day > daysInMonth
      then (case fillRow todayStr year mon firstDay daysInMonth i js day ev of
              (cs, day', ev') \<Rightarrow> (EmptyCell # cs, day', ev'))
      else (case renderDay todayStr year mon day ev of
              (c, ev1) \<Rightarrow>
                (case fillRow todayStr year mon firstDay daysInMonth i js (day + 1) ev1 of
                   (cs, day', ev') \<Rightarrow> (c # cs, day', ev'))))"

fun fillRows ::
  "string \<Rightarrow> int \<Rightarrow> int \<Rightarrow> int \<Rightarrow> int \<Rightarrow> int list \<Rightarrow> int \<Rightarrow> eventStore
     \<Rightarrow> cell list list \<times> int \<times> eventStore" where
  \<comment> \<open>the outer loop over the rows, left as soon as the month is used up\<close>
  "fillRows todayStr year mon firstDay daysInMonth [] day ev = ([], day, ev)"
| "fillRows todayStr year mon firstDay daysInMonth (i # is) day ev =
     (case fillRow todayStr year mon firstDay daysInMonth i [0, 1, 2, 3, 4, 5, 6] day ev of
        (row, day1, ev1) \<Rightarrow>
          if day1 > daysInMonth then ([row], day1, ev1)
          else (case fillRows todayStr year mon firstDay daysInMonth is day1 ev1 of
                  (rows, day', ev') \<Rightarrow> (row # rows, day', ev')))"

definition generateCalendar :: "jsDate \<Rightarrow> jsDate \<Rightarrow> state \<Rightarrow> state" where
  \<comment> \<open>\<open>today\<close> is the clock the function reads, \<open>d\<close> its argument\<close>
  "generateCalendar today d st =
     (let mon = month d;
          year = fullYear d;
          todayStr = dateKey (fullYear today) (month today) (date today);
          firstDay = firstDayOf year mon;
          daysInMonth = daysInMonthOf year mon
      in case fillRows todayStr year mon firstDay daysInMonth [0, 1, 2, 3, 4, 5] 1 (events st) of
           (rows, day', ev') \<Rightarrow> st\<lparr>calendarBody := rows, events := ev'\<rparr>)"

section \<open>Creating, editing and deleting events\<close>

datatype error = TypeError

definition saveEvents :: "state \<Rightarrow> state" where
  \<comment> \<open>the whole store is written under the key \<^verbatim>\<open>calendarEvents\<close>\<close>
  "saveEvents st = st\<lparr>calendarEvents := Some (events st)\<rparr>"

definition openEventModal :: "int \<Rightarrow> string \<Rightarrow> calEvent option \<Rightarrow> state \<Rightarrow> state" where
  \<comment> \<open>\<open>clock\<close> is the value of \<^verbatim>\<open>Date.now()\<close>, the id of a new event\<close>
  "openEventModal clock d event st =
     st\<lparr>currentEditingEvent := Some (d, case event of Some e \<Rightarrow> id_ev e | None \<Rightarrow> clock)\<rparr>"

definition closeEventModal :: "state \<Rightarrow> state" where
  "closeEventModal st = st\<lparr>currentEditingEvent := None\<rparr>"

definition editEvent_click :: "int \<Rightarrow> string \<Rightarrow> int \<Rightarrow> state \<Rightarrow> error + state" where
  \<comment> \<open>the Edit entry of an event's menu\<close>
  "editEvent_click clock d eventId st =
     (case events st d of
        None \<Rightarrow> Inl TypeError
      | Some es \<Rightarrow> Inr (openEventModal clock d (find (\<lambda>e. id_ev e = eventId) es) st))"

fun findIndex :: "('a \<Rightarrow> bool) \<Rightarrow> 'a list \<Rightarrow> nat option" where
  \<comment> \<open>\<^verbatim>\<open>Array.prototype.findIndex\<close>; \<open>None\<close> is the result -1\<close>
  "findIndex P [] = None"
| "findIndex P (x # xs) = (if P x then Some 0 else map_option Suc (findIndex P xs))"

definition storeEvent :: "string \<Rightarrow> int \<Rightarrow> string \<Rightarrow> string \<Rightarrow> string \<Rightarrow> eventStore \<Rightarrow> eventStore" where
  \<comment> \<open>the update of the store in the save handler\<close>
  "storeEvent d i txt tm rem ev =
     (let es = (case ev d of None \<Rightarrow> [] | Some es \<Rightarrow> es) in
      case findIndex (\<lambda>e. id_ev e = i) es of
        Some eventIndex \<Rightarrow>
          ev(d \<mapsto> es[eventIndex := (es ! eventIndex)\<lparr>text_ev := txt, time := tm, reminder := rem\<rparr>])
      | None \<Rightarrow>
          ev(d \<mapsto> es @ [\<lparr>id_ev = i, text_ev = txt, time = tm, reminder = rem\<rparr>]))"

definition saveEventBtn_click :: "jsDate \<Rightarrow> string \<Rightarrow> string \<Rightarrow> string \<Rightarrow> state \<Rightarrow> state" where
  \<comment> \<open>the arguments after the clock are the values of the three input fields\<close>
  "saveEventBtn_click today eventInput eventTimeInput eventReminderInput st =
     (let txt = trim eventInput; tm = eventTimeInput; rem = eventReminderInput in
      case currentEditingEvent st of
        None \<Rightarrow> st
      | Some (d, i) \<Rightarrow>
          if txt = [] then st
          else if rem \<noteq> ''none'' \<and> tm = []
          then st\<lparr>alerts := alerts st @ [''Please set an event time to add a reminder.'']\<rparr>
          else closeEventModal
                 (generateCalendar today (displayedDate st)
                    (saveEvents (st\<lparr>events := storeEvent d i txt tm rem (events st)\<rparr>))))"

definition removeEvent :: "string \<Rightarrow> int \<Rightarrow> calEvent list \<Rightarrow> eventStore \<Rightarrow> eventStore" where
  \<comment> \<open>the update of the store in the delete handler; \<open>es\<close> is the list of the date\<close>
  "removeEvent d eventId es ev =
     (let es' = filter (\<lambda>e. id_ev e \<noteq> eventId) es in
      if length es' = 0 then ev(d := None) else ev(d \<mapsto> es'))"

definition confirmYesBtn_click :: "jsDate \<Rightarrow> string \<Rightarrow> int \<Rightarrow> state \<Rightarrow> error + state" where
  \<comment> \<open>the Yes button of the delete confirmation opened for \<open>d\<close> and \<open>eventId\<close>; reading the
      list of a date that has none raises\<close>
  "confirmYesBtn_click today d eventId st =
     (case events st d of
        None \<Rightarrow> Inl TypeError
      | Some es \<Rightarrow>
          Inr (generateCalendar today (displayedDate st)
                 (saveEvents
                    (st\<lparr>events := removeEvent d eventId es (events st),
                        sessionNotifiedIds := sessionNotifiedIds st - {eventId}\<rparr>))))"

section \<open>Observing a run\<close>

definition emitted :: "state \<Rightarrow> state \<Rightarrow> calEvent list" where
  \<comment> \<open>the notifications shown on the way from \<open>st\<close> to \<open>st'\<close>\<close>
  "emitted st st' = drop (length (notifications st)) (notifications st')"

definition scans :: "jsDate list \<Rightarrow> state \<Rightarrow> state" where
  \<comment> \<open>the scans of one session, one for each reading of the clock\<close>
  "scans nows st = foldl (\<lambda>s now. checkReminders now s) st nows"

definition clockAt :: "int \<Rightarrow> int \<Rightarrow> int \<Rightarrow> int \<Rightarrow> int \<Rightarrow> jsDate" where
  \<comment> \<open>the date whose fields are the given year, 0-based month, day, hour and minute\<close>
  "clockAt y m d h mi =
     \<lparr>fullYear = y, month = m, date = d, hours = h, minutes = mi, seconds = 0, milliseconds = 0\<rparr>"

definition sessionStart :: "jsDate \<Rightarrow> eventStore option \<Rightarrow> state" where
  \<comment> \<open>the variables of the page once declared: the store is what the storage holds, or empty\<close>
  "sessionStart today stored =
     \<lparr>events = (case stored of Some ev \<Rightarrow> ev | None \<Rightarrow> Map.empty),
      calendarEvents = stored,
      sessionNotifiedIds = {},
      currentEditingEvent = None,
      displayedDate = today,
      calendarBody = [],
      notifications = [],
      alerts = []\<rparr>"

definition dayKeys :: "cell list \<Rightarrow> string list" where
  \<comment> \<open>the date keys of the day cells of a row, in the order of the cells\<close>
  "dayKeys cs = concat (map (\<lambda>c. case c of EmptyCell \<Rightarrow> [] | DayCell d k t es \<Rightarrow> [k]) cs)"

definition sortedAt :: "string set \<Rightarrow> eventStore \<Rightarrow> eventStore" where
  \<comment> \<open>the store with the lists of the keys in \<open>K\<close> sorted by time\<close>
  "sortedAt K ev = (\<lambda>k. if k \<in> K then map_option (sortBy eventCompare) (ev k) else ev k)"

definition wellShown :: "eventStore \<Rightarrow> cell \<Rightarrow> bool" where
  \<comment> \<open>a day cell lists the events that the store \<open>ev\<close> has for its key, sorted by time\<close>
  "wellShown ev c =
     (case c of
        EmptyCell \<Rightarrow> True
      | DayCell d k t es \<Rightarrow> es = (case ev k of None \<Rightarrow> [] | Some xs \<Rightarrow> sortBy eventCompare xs))"

definition isLeapYear :: "int \<Rightarrow> bool" where
  "isLeapYear y = (y mod 4 = 0 \<and> (y mod 100 \<noteq> 0 \<or> y mod 400 = 0))"

definition gregorianMonthLength :: "int \<Rightarrow> int \<Rightarrow> int" where
  \<comment> \<open>the number of days of month \<open>m\<close> (0-based) of year \<open>y\<close> in the Gregorian calendar:
      the reference that the rendered grid is compared with\<close>
  "gregorianMonthLength y m =
     (if m = 1 then (if isLeapYear y then 29 else 28)
      else if m = 3 \<or> m = 5 \<or> m = 8 \<or> m = 10 then 30
      else 31)"

definition dayCells :: "cell list \<Rightarrow> cell list" where
  \<comment> \<open>the cells of a grid that show a day, in the order of the grid\<close>
  "dayCells cs = filter (\<lambda>c. c \<noteq> EmptyCell) cs"

definition cellOf :: "string \<Rightarrow> int \<Rightarrow> int \<Rightarrow> eventStore \<Rightarrow> int \<Rightarrow> cell" where
  \<comment> \<open>the cell expected for day \<open>n\<close>: its key, whether it is the current day, and the
      events of the store under the key, sorted by time\<close>
  "cellOf todayStr y m ev n =
     DayCell n (dateKey y m n) (dateKey y m n = todayStr)
       (sort_key time (case ev (dateKey y m n) of None \<Rightarrow> [] | Some xs \<Rightarrow> xs))"

definition monthKeys :: "jsDate \<Rightarrow> string set" where
  \<comment> \<open>the date keys of the days of the month of \<open>d\<close>\<close>
  "monthKeys d =
     set (map (dateKey (fullYear d) (month d)) [1..daysInMonthOf (fullYear d) (month d)])"

section \<open>Sessions\<close>

definition storeIds :: "eventStore \<Rightarrow> int set" where
  \<comment> \<open>the ids of all events of the store\<close>
  "storeIds ev = (\<Union>es \<in> ran ev. id_ev ` set es)"

definition idsUniqueWithinDates :: "eventStore \<Rightarrow> bool" where
  \<comment> \<open>no two events of one date have the same id\<close>
  "idsUniqueWithinDates ev = (\<forall>d es. ev d = Some es \<longrightarrow> distinct (map id_ev es))"

definition idsUniqueAcrossStore :: "eventStore \<Rightarrow> bool" where
  \<comment> \<open>no two events of the store have the same id, whatever their dates\<close>
  "idsUniqueAcrossStore ev =
     (idsUniqueWithinDates ev \<and>
      (\<forall>d d' es es'. d \<noteq> d' \<and> ev d = Some es \<and> ev d' = Some es'
          \<longrightarrow> id_ev ` set es \<inter> id_ev ` set es' = {}))"

definition persistedStore :: "state \<Rightarrow> eventStore" where
  \<comment> \<open>what a page load reads back: \<^verbatim>\<open>JSON.parse(localStorage.getItem(...)) || {}\<close>\<close>
  "persistedStore st = (case calendarEvents st of Some ev \<Rightarrow> ev | None \<Rightarrow> Map.empty)"

definition sameEvents :: "eventStore \<Rightarrow> eventStore \<Rightarrow> bool" where
  \<comment> \<open>the same dates with the same events, up to the order within each list\<close>
  "sameEvents ev ev' = (\<forall>k. map_option mset (ev k) = map_option mset (ev' k))"

definition idsAt :: "eventStore \<Rightarrow> string \<Rightarrow> int set" where
  \<comment> \<open>the ids of the events of the date \<open>k\<close>\<close>
  "idsAt ev k = (case ev k of None \<Rightarrow> {} | Some es \<Rightarrow> id_ev ` set es)"

definition dialogIdLocal :: "(string \<times> int) option \<Rightarrow> eventStore \<Rightarrow> bool" where
  \<comment> \<open>the id of the open dialog is the id of no event of another date\<close>
  "dialogIdLocal cur ev =
     (case cur of None \<Rightarrow> True | Some (d, i) \<Rightarrow> (\<forall>d'. d' \<noteq> d \<longrightarrow> i \<notin> idsAt ev d'))"

text \<open>
  The states of the page. A session starts from what the storage holds, empty at first; the
  user opens the dialog for a new event (its id is the reading of \<^verbatim>\<open>Date.now()\<close>) or
  for an event of a date, saves or cancels it, and confirms deletions; the timers scan for
  reminders and render the month again; a reload starts a new session from the storage. A
  handler that raises leaves the state as it was. With \<open>fresh\<close> the clock read for a new
  id differs from every id in the store; without it the clock is arbitrary.
\<close>

inductive reachable :: "bool \<Rightarrow> state \<Rightarrow> bool" for fresh :: bool where
  start: "reachable fresh (sessionStart today None)"
| add: "reachable fresh st \<Longrightarrow> (fresh \<longrightarrow> clock \<notin> storeIds (events st))
          \<Longrightarrow> reachable fresh (openEventModal clock d None st)"
| edit: "reachable fresh st \<Longrightarrow> (fresh \<longrightarrow> clock \<notin> storeIds (events st))
          \<Longrightarrow> editEvent_click clock d i st = Inr st' \<Longrightarrow> reachable fresh st'"
| save: "reachable fresh st \<Longrightarrow> reachable fresh (saveEventBtn_click today txt tm rem st)"
| cancel: "reachable fresh st \<Longrightarrow> reachable fresh (closeEventModal st)"
| delete: "reachable fresh st \<Longrightarrow> confirmYesBtn_click today d i st = Inr st'
          \<Longrightarrow> reachable fresh st'"
| scan: "reachable fresh st \<Longrightarrow> reachable fresh (checkReminders now st)"
| render: "reachable fresh st \<Longrightarrow> reachable fresh (generateCalendar today d (st\<lparr>displayedDate := d\<rparr>))"
| reload: "reachable fresh st \<Longrightarrow> reachable fresh (sessionStart today (calendarEvents st))"

text \<open>
  What happens in one session, as a list of actions: the four clicks of the calendar, each
  with the values it reads, the scan of the reminders and the render of a month. A click whose
  handler raises changes nothing.
\<close>

datatype action =
    AddClick int string
  | EditClick int string int
  | SaveClick jsDate string string string
  | CancelClick
  | DeleteConfirm jsDate string int
  | Scan jsDate
  | Render jsDate jsDate

fun perform :: "action \<Rightarrow> state \<Rightarrow> state" where
  "perform (AddClick clock d) st = openEventModal clock d None st"
| "perform (EditClick clock d i) st =
     (case editEvent_click clock d i st of Inl err \<Rightarrow> st | Inr st' \<Rightarrow> st')"
| "perform (SaveClick today eventInput tm rem) st = saveEventBtn_click today eventInput tm rem st"
| "perform CancelClick st = closeEventModal st"
| "perform (DeleteConfirm today d i) st =
     (case confirmYesBtn_click today d i st of Inl err \<Rightarrow> st | Inr st' \<Rightarrow> st')"
| "perform (Scan now) st = checkReminders now st"
| "perform (Render today d) st = generateCalendar today d (st\<lparr>displayedDate := d\<rparr>)"

definition run :: "action list \<Rightarrow> state \<Rightarrow> state" where
  "run acts st = foldl (\<lambda>s a. perform a s) st acts"

fun deletes :: "int \<Rightarrow> action \<Rightarrow> bool" where
  \<comment> \<open>the action confirms the deletion of an event of id \<open>i\<close>\<close>
  "deletes i (DeleteConfirm today d j) = (j = i)"
| "deletes i a = False"

section \<open>The offline cache worker\<close>

text \<open>
  A request has a method, an absolute URL and headers (names in lower case, as the host
  keeps them); a response has a status, a type, the field names of its \<^verbatim>\<open>Vary\<close>
  header and a body. A cache is the list of its entries, a request with its response, in
  the order of their insertion, and the cache storage is the list of the named caches in the
  order of their creation. The network answers a request with a response, or fails.

  A request matches an entry when it is a GET, its URL and the entry's are the same once
  their fragments are left out, and, for every field name of the entry's \<^verbatim>\<open>Vary\<close>,
  the name is not \<open>*\<close> and the request and the entry's request have the same value for
  it. \<^verbatim>\<open>cache.put\<close> rejects, and stores nothing, when the URL is not an http(s) one, the
  method is not GET, the status is 206 or \<^verbatim>\<open>Vary\<close> has \<open>*\<close>, and when the browser's
  quota is exceeded, which is an input of the model. The worker neither awaits nor catches
  the write: it is modelled as over when the handler is, and \<^verbatim>\<open>caches.open\<close> is taken
  to succeed.
\<close>

record request =
  method_r :: string
  url :: string
  headers :: "(string \<times> string) list"

record response =
  status :: int
  type_r :: string
  vary :: "string list"
  body :: string

type_synonym cache = "(request \<times> response) list"

type_synonym cacheStorage = "(string \<times> cache) list"



definition stripFragment :: "string \<Rightarrow> string" where
  "stripFragment u = takeWhile (\<lambda>c. c \<noteq> CHR ''#'') u"


definition requestMatches :: "request \<Rightarrow> request \<times> response \<Rightarrow> bool" where
  "requestMatches q entry =
     (method_r q = ''GET''
      \<and> stripFragment (url q) = stripFragment (url (fst entry))
      \<and> list_all (\<lambda>f. f \<noteq> ''*'' \<and> map_of (headers q) f = map_of (headers (fst entry)) f)
           (vary (snd entry)))"

definition cache_match :: "cache \<Rightarrow> request \<Rightarrow> response option" where
  \<comment> \<open>\<^verbatim>\<open>cache.match(request)\<close>: the response of the first entry that matches\<close>
  "cache_match c q = map_option snd (find (requestMatches q) c)"

fun caches_match :: "cacheStorage \<Rightarrow> request \<Rightarrow> response option" where
  \<comment> \<open>\<^verbatim>\<open>caches.match(request)\<close>: the first cache that has a match answers\<close>
  "caches_match [] q = None"
| "caches_match ((n, c) # cs) q =
     (case cache_match c q of Some r \<Rightarrow> Some r | None \<Rightarrow> caches_match cs q)"






section \<open>Properties of the reminder scan\<close>

lemma scanEvent_cases:
  "scanEvent now st e = st \<or>
   (id_ev e \<notin> sessionNotifiedIds st \<and>
    scanEvent now st e = st\<lparr>notifications := notifications st @ [e],
                              sessionNotifiedIds := insert (id_ev e) (sessionNotifiedIds st)\<rparr>)"
  by (simp add: scanEvent_def)

lemma scanEvent_fold:
  "\<exists>new. foldl (scanEvent now) st es =
           st\<lparr>notifications := notifications st @ new,
              sessionNotifiedIds := sessionNotifiedIds st \<union> set (map id_ev new)\<rparr>
        \<and> distinct (map id_ev new)
        \<and> set (map id_ev new) \<inter> sessionNotifiedIds st = {}"
proof (induction es arbitrary: st)
  case Nil
  have "st = st\<lparr>notifications := notifications st @ [],
                 sessionNotifiedIds := sessionNotifiedIds st \<union> set (map id_ev [])\<rparr>"
    by simp
  then show ?case
    by (metis foldl_Nil distinct.simps(1) list.simps(8) empty_set Int_empty_left)
next
  case (Cons e es)
  let ?s1 = "scanEvent now st e"
  from Cons.IH [of ?s1] obtain new where
    n: "foldl (scanEvent now) ?s1 es =
          ?s1\<lparr>notifications := notifications ?s1 @ new,
              sessionNotifiedIds := sessionNotifiedIds ?s1 \<union> set (map id_ev new)\<rparr>"
    and d: "distinct (map id_ev new)"
    and i: "set (map id_ev new) \<inter> sessionNotifiedIds ?s1 = {}"
    by blast
  from scanEvent_cases [of now st e] show ?case
  proof
    assume "?s1 = st"
    with n d i show ?thesis by auto
  next
    assume a: "id_ev e \<notin> sessionNotifiedIds st \<and>
      ?s1 = st\<lparr>notifications := notifications st @ [e],
                sessionNotifiedIds := insert (id_ev e) (sessionNotifiedIds st)\<rparr>"
    then have s1s: "sessionNotifiedIds ?s1 = insert (id_ev e) (sessionNotifiedIds st)"
      by simp
    have "foldl (scanEvent now) st (e # es) =
            st\<lparr>notifications := notifications st @ (e # new),
               sessionNotifiedIds := sessionNotifiedIds st \<union> set (map id_ev (e # new))\<rparr>"
      using n a by simp
    moreover have "distinct (map id_ev (e # new))"
      using d i s1s by auto
    moreover have "set (map id_ev (e # new)) \<inter> sessionNotifiedIds st = {}"
      using i s1s a by auto
    ultimately show ?thesis by blast
  qed
qed

lemma checkReminders_shape:
  "\<exists>new. checkReminders now st =
           st\<lparr>notifications := notifications st @ new,
              sessionNotifiedIds := sessionNotifiedIds st \<union> set (map id_ev new)\<rparr>
        \<and> distinct (map id_ev new)
        \<and> set (map id_ev new) \<inter> sessionNotifiedIds st = {}"
  unfolding checkReminders_def Let_def by (rule scanEvent_fold)

lemma scans_shape:
  "\<exists>new. scans nows st =
           st\<lparr>notifications := notifications st @ new,
              sessionNotifiedIds := sessionNotifiedIds st \<union> set (map id_ev new)\<rparr>
        \<and> distinct (map id_ev new)
        \<and> set (map id_ev new) \<inter> sessionNotifiedIds st = {}"
proof (induction nows arbitrary: st)
  case Nil
  have "st = st\<lparr>notifications := notifications st @ [],
                 sessionNotifiedIds := sessionNotifiedIds st \<union> set (map id_ev [])\<rparr>"
    by simp
  then show ?case unfolding scans_def
    by (metis foldl_Nil distinct.simps(1) list.simps(8) empty_set Int_empty_left)
next
  case (Cons now nows)
  let ?s1 = "checkReminders now st"
  from checkReminders_shape [of now st] obtain new1 where
    a: "?s1 = st\<lparr>notifications := notifications st @ new1,
              sessionNotifiedIds := sessionNotifiedIds st \<union> set (map id_ev new1)\<rparr>"
    and d1: "distinct (map id_ev new1)"
    and i1: "set (map id_ev new1) \<inter> sessionNotifiedIds st = {}" by blast
  from Cons.IH [of ?s1] obtain new2 where
    b: "scans nows ?s1 = ?s1\<lparr>notifications := notifications ?s1 @ new2,
              sessionNotifiedIds := sessionNotifiedIds ?s1 \<union> set (map id_ev new2)\<rparr>"
    and d2: "distinct (map id_ev new2)"
    and i2: "set (map id_ev new2) \<inter> sessionNotifiedIds ?s1 = {}" by blast
  have s1n: "notifications ?s1 = notifications st @ new1"
    and s1s: "sessionNotifiedIds ?s1 = sessionNotifiedIds st \<union> set (map id_ev new1)"
    by (subst a, simp)+
  have "scans (now # nows) st = scans nows ?s1" by (simp add: scans_def)
  then have "scans (now # nows) st =
           st\<lparr>notifications := notifications st @ (new1 @ new2),
              sessionNotifiedIds := sessionNotifiedIds st \<union> set (map id_ev (new1 @ new2))\<rparr>"
    using a b s1n s1s by (simp add: Un_assoc)
  moreover have "distinct (map id_ev (new1 @ new2))"
    using d1 d2 i2 s1s by auto
  moreover have "set (map id_ev (new1 @ new2)) \<inter> sessionNotifiedIds st = {}"
    using i1 i2 s1s by auto
  ultimately show ?case by blast
qed

lemma distinct_count_le1:
  "distinct (map f xs) \<Longrightarrow> length (filter (\<lambda>e. f e = i) xs) \<le> 1"
  by (induction xs) (auto simp: filter_empty_conv image_iff)

lemma scans_emitted:
  "length (filter (\<lambda>e. id_ev e = i) (emitted st (scans nows st))) \<le> 1
   \<and> (i \<in> sessionNotifiedIds st \<longrightarrow>
        filter (\<lambda>e. id_ev e = i) (emitted st (scans nows st)) = [])
   \<and> sessionNotifiedIds st \<subseteq> sessionNotifiedIds (scans nows st)"
proof -
  from scans_shape [of nows st] obtain new where
    a: "scans nows st = st\<lparr>notifications := notifications st @ new,
              sessionNotifiedIds := sessionNotifiedIds st \<union> set (map id_ev new)\<rparr>"
    and d: "distinct (map id_ev new)"
    and i: "set (map id_ev new) \<inter> sessionNotifiedIds st = {}" by blast
  have e: "emitted st (scans nows st) = new" unfolding emitted_def by (subst a) simp
  have s: "sessionNotifiedIds (scans nows st) = sessionNotifiedIds st \<union> set (map id_ev new)"
    by (subst a) simp
  show ?thesis using d i distinct_count_le1 [OF d, of i] unfolding e s
    by (auto simp: filter_empty_conv)
qed

lemmas trim_eval = trim_def trimStart_def trimEnd_def dropSeqs.simps whiteSpace_def

lemmas scan_eval =
  checkReminders_def scanEvent_def isDue_def getTime_def eventTimeValue_def nth_opt_def
  newDate5_def Number_str_def trim_eval unsignedDecimal_def isDigit_def decimal_def
  digitVal_def parseInt10_def msPerDay_def dateKey_def numToString_def natToString.simps
  digitChar_def clockAt_def emitted_def sessionStart_def

text \<open>
  C1 (as amended). The scan looks the events up under the key it builds from the year, the
  0-based month and the day of \<open>now\<close>: on 10 May 2024 that key is \<open>2024-4-10\<close>. For
  an event stored under that key with time \<open>14:00\<close> and reminder \<open>30\<close>, not yet
  notified in the session, the scan at 13:31 shows exactly one notification, the one of
  that event, and the scan at 13:29 shows none. On that day the scan shows the notification
  exactly when the clock is at or past 13:30 and not past 14:00.
\<close>

theorem scanReminders_scenario:
  assumes "events st ''2024-4-10'' = Some [e]"
    and "time e = ''14:00''"
    and "reminder e = ''30''"
    and "id_ev e \<notin> sessionNotifiedIds st"
  shows "emitted st (checkReminders (clockAt 2024 4 10 13 31) st) = [e]
       \<and> emitted st (checkReminders (clockAt 2024 4 10 13 29) st) = []
       \<and> (\<forall>h mi s ms.
            emitted st
              (checkReminders
                 \<lparr>fullYear = 2024, month = 4, date = 10, hours = h, minutes = mi, seconds = s,
                    milliseconds = ms\<rparr> st)
            = (if 13 * 3600000 + 30 * 60000 \<le> h * 3600000 + mi * 60000 + s * 1000 + ms
                  \<and> h * 3600000 + mi * 60000 + s * 1000 + ms \<le> 14 * 3600000
               then [e] else []))"
proof -
  have a: "emitted st (checkReminders (clockAt 2024 4 10 13 31) st) = [e]"
    "emitted st (checkReminders (clockAt 2024 4 10 13 29) st) = []"
    using assms by (simp_all add: scan_eval)
  have "emitted st
              (checkReminders
                 \<lparr>fullYear = 2024, month = 4, date = 10, hours = h, minutes = mi, seconds = s,
                    milliseconds = ms\<rparr> st)
            = (if 13 * 3600000 + 30 * 60000 \<le> h * 3600000 + mi * 60000 + s * 1000 + ms
                  \<and> h * 3600000 + mi * 60000 + s * 1000 + ms \<le> 14 * 3600000
               then [e] else [])" for h mi s ms
    using assms by (simp add: scan_eval)
  with a show ?thesis by blast
qed

theorem scanReminders_scenario_witness:
  "emitted
     (sessionStart (clockAt 2024 4 10 13 0)
        (Some [''2024-4-10'' \<mapsto>
           [\<lparr>id_ev = 1715300000000, text_ev = ''Meeting'', time = ''14:00'', reminder = ''30''\<rparr>]]))
     (checkReminders (clockAt 2024 4 10 13 31)
        (sessionStart (clockAt 2024 4 10 13 0)
           (Some [''2024-4-10'' \<mapsto>
              [\<lparr>id_ev = 1715300000000, text_ev = ''Meeting'', time = ''14:00'', reminder = ''30''\<rparr>]])))
   = [\<lparr>id_ev = 1715300000000, text_ev = ''Meeting'', time = ''14:00'', reminder = ''30''\<rparr>]"
  using scanReminders_scenario
    [of "sessionStart (clockAt 2024 4 10 13 0)
           (Some [''2024-4-10'' \<mapsto>
              [\<lparr>id_ev = 1715300000000, text_ev = ''Meeting'', time = ''14:00'', reminder = ''30''\<rparr>]])"
        "\<lparr>id_ev = 1715300000000, text_ev = ''Meeting'', time = ''14:00'', reminder = ''30''\<rparr>"]
  by (simp add: sessionStart_def)

text \<open>
  C1 as stated fails: with the event stored under the key \<open>2024-5-10\<close> (the key of 10 June
  2024), the scan of 10 May 2024 at 13:31 (month index 4) finds no event and shows nothing.
\<close>

theorem scanReminders_scenario_key_mismatch:
  "emitted
     (sessionStart (clockAt 2024 4 10 13 0)
        (Some [''2024-5-10'' \<mapsto>
           [\<lparr>id_ev = 1715300000000, text_ev = ''Meeting'', time = ''14:00'', reminder = ''30''\<rparr>]]))
     (checkReminders (clockAt 2024 4 10 13 31)
        (sessionStart (clockAt 2024 4 10 13 0)
           (Some [''2024-5-10'' \<mapsto>
              [\<lparr>id_ev = 1715300000000, text_ev = ''Meeting'', time = ''14:00'', reminder = ''30''\<rparr>]])))
   = []"
  by (simp add: scan_eval)

text \<open>
  C10. A scan never changes the store: the mapping of date keys to event lists and what is
  persisted are what they were; the scan changes nothing but the notifications shown, which
  it extends, and the set of notified ids, which it enlarges.
\<close>

theorem scanReminders_preserves_store:
  "events (checkReminders now st) = events st
   \<and> calendarEvents (checkReminders now st) = calendarEvents st
   \<and> checkReminders now st =
       st\<lparr>notifications := notifications (checkReminders now st),
          sessionNotifiedIds := sessionNotifiedIds (checkReminders now st)\<rparr>
   \<and> sessionNotifiedIds st \<subseteq> sessionNotifiedIds (checkReminders now st)
   \<and> take (length (notifications st)) (notifications (checkReminders now st)) = notifications st"
proof -
  from checkReminders_shape [of now st] obtain new where
    a: "checkReminders now st = st\<lparr>notifications := notifications st @ new,
              sessionNotifiedIds := sessionNotifiedIds st \<union> set (map id_ev new)\<rparr>" by blast
  show ?thesis by (subst a)+ simp
qed

section \<open>The calendar arithmetic\<close>

lemma pred_divmod_nz:
  assumes "0 < k" "(y::int) mod k \<noteq> 0"
  shows "(y - 1) div k = y div k" "(y - 1) mod k = y mod k - 1"
proof -
  have e: "y - 1 = k * (y div k) + (y mod k - 1)" by simp
  have l: "0 \<le> y mod k - 1" using assms pos_mod_sign [of k y] by linarith
  have u: "y mod k - 1 < k" using assms pos_mod_bound [of k y] by linarith
  show "(y - 1) div k = y div k" by (rule int_div_pos_eq [OF e l u])
  show "(y - 1) mod k = y mod k - 1" by (rule int_mod_pos_eq [OF e l u])
qed

lemma pred_divmod_z:
  assumes "0 < k" "(y::int) mod k = 0"
  shows "(y - 1) div k = y div k - 1" "(y - 1) mod k = k - 1"
proof -
  have "y = k * (y div k)" using assms by auto
  then have e: "y - 1 = k * (y div k - 1) + (k - 1)" by (simp add: algebra_simps)
  have l: "0 \<le> k - 1" using assms by linarith
  have u: "k - 1 < k" by simp
  show "(y - 1) div k = y div k - 1" by (rule int_div_pos_eq [OF e l u])
  show "(y - 1) mod k = k - 1" by (rule int_mod_pos_eq [OF e l u])
qed

lemma div_step: "0 < k \<Longrightarrow> (r::int) div k - (r - 1) div k = (if r mod k = 0 then 1 else 0)"
  by (simp add: pred_divmod_nz pred_divmod_z)

lemma m100: "(r::int) mod 100 = 0 \<Longrightarrow> r mod 4 = 0"
proof -
  assume "r mod 100 = 0"
  then have "100 dvd r" by (simp add: mod_eq_0_iff_dvd)
  moreover have "(4::int) dvd 100" by simp
  ultimately have "4 dvd r" by (rule dvd_trans [rotated])
  then show ?thesis by (simp add: mod_eq_0_iff_dvd)
qed


lemma yearLen:
  fixes y :: int
  defines "g \<equiv> \<lambda>y::int. (y div 400) * 146097 + (y mod 400) * 365 + (y mod 400) div 4 - (y mod 400) div 100"
  shows "g y - g (y - 1) = 365 \<or> g y - g (y - 1) = 366"
proof (cases "y mod 400 = 0")
  case True
  have d: "(y - 1) div 400 = y div 400 - 1" and m: "(y - 1) mod 400 = 399"
    using pred_divmod_z [of 400 y] True by simp_all
  show ?thesis unfolding g_def d m True by simp
next
  case False
  have d: "(y - 1) div 400 = y div 400" and m: "(y - 1) mod 400 = y mod 400 - 1"
    using pred_divmod_nz [of 400 y] False by simp_all
  let ?r = "y mod 400"
  have "g y - g (y - 1) = 365 + (?r div 4 - (?r - 1) div 4) - (?r div 100 - (?r - 1) div 100)"
    unfolding g_def d m by (simp add: algebra_simps)
  also have "?r div 4 - (?r - 1) div 4 = (if ?r mod 4 = 0 then 1 else 0)"
    by (rule div_step) simp
  also have "?r div 100 - (?r - 1) div 100 = (if ?r mod 100 = 0 then 1 else 0)"
    by (rule div_step) simp
  finally have e: "g y - g (y - 1) =
      365 + (if ?r mod 4 = 0 then 1 else 0) - (if ?r mod 100 = 0 then 1 else 0)" .
  show ?thesis
  proof (cases "?r mod 100 = 0")
    case True
    with m100 [of ?r] have "?r mod 4 = 0" by blast
    with True e show ?thesis by simp
  next
    case False
    with e show ?thesis by (cases "?r mod 4 = 0") simp_all
  qed
qed

lemma daysFromCivil_alt:
  "daysFromCivil y m =
     (let y' = (if m \<le> 1 then y - 1 else y) in
        (y' div 400) * 146097 + (y' mod 400) * 365 + (y' mod 400) div 4 - (y' mod 400) div 100
          + (153 * (if m \<le> 1 then m + 10 else m - 2) + 2) div 5 - 719468)"
proof -
  have h: "\<And>z::int. z - (z div 400) * 400 = z mod 400" by (simp add: minus_div_mult_eq_mod)
  show ?thesis by (simp only: daysFromCivil_def Let_def h)
qed

lemma succ_month:
  fixes m :: int
  shows "m mod 12 \<noteq> 11 \<Longrightarrow> (m + 1) div 12 = m div 12 \<and> (m + 1) mod 12 = m mod 12 + 1"
    and "m mod 12 = 11 \<Longrightarrow> (m + 1) div 12 = m div 12 + 1 \<and> (m + 1) mod 12 = 0"
proof -
  assume a: "m mod 12 \<noteq> 11"
  have e: "m + 1 = 12 * (m div 12) + (m mod 12 + 1)" by simp
  define r where "r = m mod 12"
  have "0 \<le> r" "r < 12" "r \<noteq> 11" using a unfolding r_def by simp_all
  then have "0 \<le> r + 1" "r + 1 < 12" by linarith+
  then have l: "0 \<le> m mod 12 + 1" and u: "m mod 12 + 1 < 12" unfolding r_def by simp_all
  show "(m + 1) div 12 = m div 12 \<and> (m + 1) mod 12 = m mod 12 + 1"
    using int_div_pos_eq [OF e l u] int_mod_pos_eq [OF e l u] by simp
next
  assume a: "m mod 12 = 11"
  define q where "q = m div 12"
  have "m = 12 * q + m mod 12" unfolding q_def by simp
  then have "m = 12 * q + 11" using a by simp
  then have "m + 1 = 12 * (q + 1) + 0" by simp
  then have e: "m + 1 = 12 * (m div 12 + 1) + 0" unfolding q_def .
  show "(m + 1) div 12 = m div 12 + 1 \<and> (m + 1) mod 12 = 0"
    using int_div_pos_eq [OF e] int_mod_pos_eq [OF e] by simp
qed

lemma monthLen_fixed:
  "daysFromCivil z 1 - daysFromCivil z 0 = 31"
  "daysFromCivil z 3 - daysFromCivil z 2 = 31"
  "daysFromCivil z 4 - daysFromCivil z 3 = 30"
  "daysFromCivil z 5 - daysFromCivil z 4 = 31"
  "daysFromCivil z 6 - daysFromCivil z 5 = 30"
  "daysFromCivil z 7 - daysFromCivil z 6 = 31"
  "daysFromCivil z 8 - daysFromCivil z 7 = 31"
  "daysFromCivil z 9 - daysFromCivil z 8 = 30"
  "daysFromCivil z 10 - daysFromCivil z 9 = 31"
  "daysFromCivil z 11 - daysFromCivil z 10 = 30"
  "daysFromCivil (z + 1) 0 - daysFromCivil z 11 = 31"
  by (simp_all add: daysFromCivil_alt Let_def)

lemma monthLen_feb:
  "daysFromCivil z 2 - daysFromCivil z 1 = 28 \<or> daysFromCivil z 2 - daysFromCivil z 1 = 29"
proof -
  have "daysFromCivil z 2 - daysFromCivil z 1 =
        ((z div 400) * 146097 + (z mod 400) * 365 + (z mod 400) div 4 - (z mod 400) div 100)
      - (((z - 1) div 400) * 146097 + ((z - 1) mod 400) * 365 + ((z - 1) mod 400) div 4 - ((z - 1) mod 400) div 100)
      - 337"
    by (simp add: daysFromCivil_alt Let_def)
  with yearLen [of z] show ?thesis by auto
qed


lemma monthLen:
  "MakeDay y (m + 1) 1 - MakeDay y m 1 \<in> {28, 29, 30, 31}"
proof -
  define r where "r = m mod 12"
  define z where "z = y + m div 12"
  have "0 \<le> r" "r < 12" unfolding r_def by simp_all
  then have c: "r = 0 \<or> r = 1 \<or> r = 2 \<or> r = 3 \<or> r = 4 \<or> r = 5 \<or> r = 6
    \<or> r = 7 \<or> r = 8 \<or> r = 9 \<or> r = 10 \<or> r = 11" by presburger
  show ?thesis
  proof (cases "r = 11")
    case True
    with succ_month(2) [of m] have "(m + 1) div 12 = m div 12 + 1" "(m + 1) mod 12 = 0"
      unfolding r_def by simp_all
    then have "MakeDay y (m + 1) 1 - MakeDay y m 1 = daysFromCivil (z + 1) 0 - daysFromCivil z 11"
      using True unfolding MakeDay_def r_def z_def by (simp add: add.assoc)
    then show ?thesis by (simp add: monthLen_fixed)
  next
    case False
    with succ_month(1) [of m] have "(m + 1) div 12 = m div 12" "(m + 1) mod 12 = r + 1"
      unfolding r_def by simp_all
    then have e: "MakeDay y (m + 1) 1 - MakeDay y m 1 = daysFromCivil z (r + 1) - daysFromCivil z r"
      unfolding MakeDay_def r_def z_def by simp
    from c False monthLen_fixed [of z] monthLen_feb [of z] show ?thesis
      unfolding e by auto
  qed
qed

lemma daysInMonthOf_range: "28 \<le> daysInMonthOf y m \<and> daysInMonthOf y m \<le> 31"
  using monthLen [of "ctorYear y" m] by (auto simp: daysInMonthOf_def)

lemma firstDayOf_range: "0 \<le> firstDayOf y m \<and> firstDayOf y m \<le> 6"
proof -
  define a where "a = MakeDay (ctorYear y) m 1 + 4"
  have "0 \<le> a mod 7" "a mod 7 < 7" by simp_all
  then show ?thesis unfolding firstDayOf_def a_def by simp
qed

section \<open>The effect of rendering on the store\<close>

lemma eventCompare_le: "eventCompare a b \<le> 0 \<longleftrightarrow> time a \<le> time b"
  by (auto simp: eventCompare_def localeCompare_def)

lemma insertBy_insort: "insertBy eventCompare x ys = insort_key time x ys"
  by (induction ys) (simp_all add: eventCompare_le)

lemma sortBy_sort_key: "sortBy eventCompare xs = sort_key time xs"
  by (induction xs) (simp_all add: sortBy_def insertBy_insort)

lemma sortBy_sorted: "sorted (map time (sortBy eventCompare xs))"
  by (simp add: sortBy_sort_key)

lemma sortBy_mset: "mset (sortBy eventCompare xs) = mset xs"
  by (simp add: sortBy_sort_key)

lemma sortBy_idem: "sortBy eventCompare (sortBy eventCompare xs) = sortBy eventCompare xs"
  by (simp add: sortBy_sort_key sort_key_id_if_sorted)

lemma sortedAt_idem: "sortedAt K (sortedAt K' ev) = sortedAt (K \<union> K') ev"
  by (rule ext) (auto simp: sortedAt_def option.map_comp comp_def sortBy_idem split: option.splits)

lemma sortedAt_empty: "sortedAt {} ev = ev"
  by (simp add: sortedAt_def)

lemma renderDay_store:
  "renderDay todayStr y m d ev = (c, ev') \<Longrightarrow>
     ev' = sortedAt {dateKey y m d} ev \<and>
     c = DayCell d (dateKey y m d) (dateKey y m d = todayStr)
           (case ev (dateKey y m d) of None \<Rightarrow> [] | Some es \<Rightarrow> sortBy eventCompare es)"
  by (auto simp: renderDay_def Let_def sortedAt_def split: option.splits)

lemma wellShown_sortedAt: "wellShown (sortedAt K ev) = wellShown ev"
  by (rule ext) (auto simp: wellShown_def sortedAt_def sortBy_idem split: cell.splits option.splits)

lemma fillRow_store:
  "fillRow todayStr y m f dim i js day ev = (cs, day', ev') \<Longrightarrow>
     ev' = sortedAt (set (dayKeys cs)) ev \<and> list_all (wellShown ev) cs"
proof (induction js arbitrary: day ev cs day' ev')
  case Nil
  then show ?case by (simp add: dayKeys_def sortedAt_empty)
next
  case (Cons j js)
  show ?case
  proof (cases "(i = 0 \<and> j < f) \<or> day > dim")
    case True
    with Cons.prems obtain cs1 where
      r: "fillRow todayStr y m f dim i js day ev = (cs1, day', ev')" and c: "cs = EmptyCell # cs1"
      by (auto split: prod.splits)
    from Cons.IH [OF r] c show ?thesis by (simp add: dayKeys_def wellShown_def)
  next
    case False
    with Cons.prems obtain c ev1 cs1 where
      rd: "renderDay todayStr y m day ev = (c, ev1)"
      and r: "fillRow todayStr y m f dim i js (day + 1) ev1 = (cs1, day', ev')"
      and c: "cs = c # cs1"
      by (auto split: prod.splits)
    from renderDay_store [OF rd] have e1: "ev1 = sortedAt {dateKey y m day} ev"
      and cc: "c = DayCell day (dateKey y m day) (dateKey y m day = todayStr)
           (case ev (dateKey y m day) of None \<Rightarrow> [] | Some es \<Rightarrow> sortBy eventCompare es)" by simp_all
    from Cons.IH [OF r] have e': "ev' = sortedAt (set (dayKeys cs1)) ev1"
      and w: "list_all (wellShown ev1) cs1" by simp_all
    have k: "dayKeys cs = dateKey y m day # dayKeys cs1" using c cc by (simp add: dayKeys_def)
    have "ev' = sortedAt (set (dayKeys cs)) ev"
      using e' e1 k by (simp add: sortedAt_idem Un_commute)
    moreover have "wellShown ev c" using cc by (simp add: wellShown_def)
    moreover have "list_all (wellShown ev) cs1" using w e1 by (simp add: wellShown_sortedAt)
    ultimately show ?thesis using c by simp
  qed
qed

lemma fillRows_store:
  "fillRows todayStr y m f dim is day ev = (rows, day', ev') \<Longrightarrow>
     ev' = sortedAt (set (dayKeys (concat rows))) ev \<and> list_all (wellShown ev) (concat rows)"
proof (induction "is" arbitrary: day ev rows day' ev')
  case Nil
  then show ?case by (simp add: dayKeys_def sortedAt_empty)
next
  case (Cons i "is")
  obtain row day1 ev1 where
    r: "fillRow todayStr y m f dim i [0, 1, 2, 3, 4, 5, 6] day ev = (row, day1, ev1)"
    by (metis prod_cases3)
  from fillRow_store [OF r] have e1: "ev1 = sortedAt (set (dayKeys row)) ev"
    and w1: "list_all (wellShown ev) row" by simp_all
  show ?case
  proof (cases "day1 > dim")
    case True
    with Cons.prems r have "rows = [row]" "ev' = ev1" by simp_all
    with e1 w1 show ?thesis by simp
  next
    case False
    with Cons.prems r obtain rows1 where
      rr: "fillRows todayStr y m f dim is day1 ev1 = (rows1, day', ev')" and c: "rows = row # rows1"
      by (auto split: prod.splits)
    from Cons.IH [OF rr] have e': "ev' = sortedAt (set (dayKeys (concat rows1))) ev1"
      and w: "list_all (wellShown ev1) (concat rows1)" by simp_all
    have k: "dayKeys (concat rows) = dayKeys row @ dayKeys (concat rows1)"
      using c by (simp add: dayKeys_def)
    have "ev' = sortedAt (set (dayKeys (concat rows))) ev"
      using e' e1 k by (simp add: sortedAt_idem Un_commute)
    moreover have "list_all (wellShown ev) (concat rows1)"
      using w e1 by (simp add: wellShown_sortedAt)
    ultimately show ?thesis using c w1 by simp
  qed
qed

lemma generateCalendar_shape:
  "generateCalendar today d st =
     st\<lparr>calendarBody := calendarBody (generateCalendar today d st),
        events := sortedAt (set (dayKeys (concat (calendarBody (generateCalendar today d st))))) (events st)\<rparr>
   \<and> list_all (wellShown (events st)) (concat (calendarBody (generateCalendar today d st)))"
proof -
  obtain rows day' ev' where
    r: "fillRows (dateKey (fullYear today) (month today) (date today)) (fullYear d) (month d)
          (firstDayOf (fullYear d) (month d)) (daysInMonthOf (fullYear d) (month d))
          [0, 1, 2, 3, 4, 5] 1 (events st) = (rows, day', ev')"
    by (metis prod_cases3)
  then have g: "generateCalendar today d st = st\<lparr>calendarBody := rows, events := ev'\<rparr>"
    by (simp add: generateCalendar_def Let_def)
  from fillRows_store [OF r] show ?thesis by (subst g)+ simp
qed

section \<open>The days of the grid\<close>

lemma fillRow_days:
  "fillRow T y m f dim i js day ev = (cs, day', ev') \<Longrightarrow>
     day' = (if day > dim then day
             else min (day + int (length (filter (\<lambda>j. \<not> (i = 0 \<and> j < f)) js))) (dim + 1))
     \<and> dayKeys cs = map (dateKey y m) [day..day' - 1]"
proof (induction js arbitrary: day ev cs day' ev')
  case Nil
  then show ?case by (auto simp: dayKeys_def)
next
  case (Cons j js)
  show ?case
  proof (cases "(i = 0 \<and> j < f) \<or> day > dim")
    case True
    with Cons.prems obtain cs1 where
      r: "fillRow T y m f dim i js day ev = (cs1, day', ev')" and c: "cs = EmptyCell # cs1"
      by (auto split: prod.splits)
    have k: "dayKeys cs = dayKeys cs1" using c by (simp add: dayKeys_def)
    from Cons.IH [OF r] True show ?thesis unfolding k by auto
  next
    case False
    with Cons.prems obtain c ev1 cs1 where
      rd: "renderDay T y m day ev = (c, ev1)"
      and r: "fillRow T y m f dim i js (day + 1) ev1 = (cs1, day', ev')"
      and c: "cs = c # cs1"
      by (auto split: prod.splits)
    from renderDay_store [OF rd] have k: "dayKeys cs = dateKey y m day # dayKeys cs1"
      using c by (simp add: dayKeys_def)
    from Cons.IH [OF r] have
      d: "day' = (if day + 1 > dim then day + 1
             else min (day + 1 + int (length (filter (\<lambda>j. \<not> (i = 0 \<and> j < f)) js))) (dim + 1))"
      and ks: "dayKeys cs1 = map (dateKey y m) [day + 1..day' - 1]" by simp_all
    from d have le: "day + 1 \<le> day'" by (auto split: if_splits)
    then have u: "[day..day' - 1] = day # [day + 1..day' - 1]" by (simp add: upto_rec1)
    have "day' = min (day + int (length (filter (\<lambda>j. \<not> (i = 0 \<and> j < f)) (j # js)))) (dim + 1)"
      using d False by (auto split: if_splits)
    then show ?thesis using False k ks u by simp
  qed
qed

lemma fillRows_days:
  "fillRows T y m f dim is day ev = (rows, day', ev') \<Longrightarrow> 0 \<notin> set is \<Longrightarrow> day \<le> dim \<Longrightarrow>
     day' = min (day + 7 * int (length is)) (dim + 1)
     \<and> dayKeys (concat rows) = map (dateKey y m) [day..day' - 1]"
proof (induction "is" arbitrary: day ev rows day' ev')
  case Nil
  then show ?case by (auto simp: dayKeys_def)
next
  case (Cons i "is")
  obtain row day1 ev1 where
    r: "fillRow T y m f dim i [0, 1, 2, 3, 4, 5, 6] day ev = (row, day1, ev1)"
    by (metis prod_cases3)
  from Cons.prems have i0: "i \<noteq> 0" and is0: "0 \<notin> set is" by auto
  from fillRow_days [OF r] i0 Cons.prems(3)
  have d1: "day1 = min (day + 7) (dim + 1)"
    and k1: "dayKeys row = map (dateKey y m) [day..day1 - 1]" by simp_all
  show ?case
  proof (cases "day1 > dim")
    case True
    with Cons.prems(1) r have "rows = [row]" "day' = day1" by simp_all
    with d1 k1 True show ?thesis by auto
  next
    case False
    with Cons.prems(1) r obtain rows1 where
      rr: "fillRows T y m f dim is day1 ev1 = (rows1, day', ev')" and c: "rows = row # rows1"
      by (auto split: prod.splits)
    from False have le: "day1 \<le> dim" by simp
    from Cons.IH [OF rr is0 le] have d': "day' = min (day1 + 7 * int (length is)) (dim + 1)"
      and ks: "dayKeys (concat rows1) = map (dateKey y m) [day1..day' - 1]" by simp_all
    from False d1 have e1: "day1 = day + 7" by auto
    have k: "dayKeys (concat rows) = dayKeys row @ dayKeys (concat rows1)"
      using c by (simp add: dayKeys_def)
    have o: "day \<le> day1" "day1 \<le> day'" using e1 d' le by auto
    then have "[day..day' - 1] = [day..day1 - 1] @ [day1..day' - 1]"
      using upto_split1 [of day day1 "day' - 1"] by (cases "day1 = day'") auto
    then have "dayKeys (concat rows) = map (dateKey y m) [day..day' - 1]"
      using k k1 ks by simp
    moreover have "day' = min (day + 7 * int (length (i # is))) (dim + 1)"
      using d' e1 by simp
    ultimately show ?thesis by simp
  qed
qed

lemma firstRow_slots:
  "0 \<le> f \<Longrightarrow> f \<le> 6 \<Longrightarrow>
     int (length (filter (\<lambda>j. \<not> ((0::int) = 0 \<and> j < f)) [0, 1, 2, 3, 4, 5, 6])) = 7 - f"
proof -
  assume "0 \<le> f" "f \<le> 6"
  then have "f = 0 \<or> f = 1 \<or> f = 2 \<or> f = 3 \<or> f = 4 \<or> f = 5 \<or> f = 6" by presburger
  then show ?thesis by auto
qed

lemma grid_days:
  assumes g: "fillRows T y m f dim [0, 1, 2, 3, 4, 5] 1 ev = (rows, day', ev')"
    and f: "0 \<le> f" "f \<le> 6" and dim: "1 \<le> dim" "dim \<le> 36"
  shows "dayKeys (concat rows) = map (dateKey y m) [1..dim]"
proof -
  obtain row day1 ev1 where
    r: "fillRow T y m f dim 0 [0, 1, 2, 3, 4, 5, 6] 1 ev = (row, day1, ev1)"
    by (metis prod_cases3)
  from fillRow_days [OF r] dim firstRow_slots [OF f]
  have d1: "day1 = min (8 - f) (dim + 1)"
    and k1: "dayKeys row = map (dateKey y m) [1..day1 - 1]" by simp_all
  show ?thesis
  proof (cases "day1 > dim")
    case True
    with g r have "rows = [row]" by simp
    moreover from True d1 have "day1 = dim + 1" by auto
    ultimately show ?thesis using k1 by simp
  next
    case False
    with g r obtain rows1 where
      rr: "fillRows T y m f dim [1, 2, 3, 4, 5] day1 ev1 = (rows1, day', ev')" and c: "rows = row # rows1"
      by (auto split: prod.splits)
    from False have le: "day1 \<le> dim" by simp
    have "(0::int) \<notin> set [1, 2, 3, 4, 5]" by simp
    from fillRows_days [OF rr this le] have d': "day' = min (day1 + 35) (dim + 1)"
      and ks: "dayKeys (concat rows1) = map (dateKey y m) [day1..day' - 1]" by simp_all
    from False d1 have e1: "day1 = 8 - f" by auto
    with d' f dim have e': "day' = dim + 1" by auto
    have k: "dayKeys (concat rows) = dayKeys row @ dayKeys (concat rows1)"
      using c by (simp add: dayKeys_def)
    have "1 \<le> day1" "day1 \<le> dim + 1" using e1 f le by auto
    then have "[1..dim] = [1..day1 - 1] @ [day1..dim]"
      using upto_split1 [of 1 day1 dim] by (cases "day1 = dim + 1") auto
    then show ?thesis using k k1 ks e' by simp
  qed
qed

lemma generateCalendar_days:
  "dayKeys (concat (calendarBody (generateCalendar today d st)))
     = map (dateKey (fullYear d) (month d)) [1..daysInMonthOf (fullYear d) (month d)]"
proof -
  obtain rows day' ev' where
    r: "fillRows (dateKey (fullYear today) (month today) (date today)) (fullYear d) (month d)
          (firstDayOf (fullYear d) (month d)) (daysInMonthOf (fullYear d) (month d))
          [0, 1, 2, 3, 4, 5] 1 (events st) = (rows, day', ev')"
    by (metis prod_cases3)
  then have g: "calendarBody (generateCalendar today d st) = rows"
    by (simp add: generateCalendar_def Let_def)
  from daysInMonthOf_range [of "fullYear d" "month d"]
  have "1 \<le> daysInMonthOf (fullYear d) (month d)" "daysInMonthOf (fullYear d) (month d) \<le> 36"
    by simp_all
  with grid_days [OF r] firstDayOf_range [of "fullYear d" "month d"] show ?thesis
    unfolding g by blast
qed

section \<open>Properties of rendering\<close>

lemma generateCalendar_events:
  "events (generateCalendar today d st) = sortedAt (monthKeys d) (events st)"
proof -
  from generateCalendar_shape [of today d st] have
    a: "generateCalendar today d st =
     st\<lparr>calendarBody := calendarBody (generateCalendar today d st),
        events := sortedAt (set (dayKeys (concat (calendarBody (generateCalendar today d st))))) (events st)\<rparr>"
    by blast
  have "events (generateCalendar today d st) =
      sortedAt (set (dayKeys (concat (calendarBody (generateCalendar today d st))))) (events st)"
    by (subst a) simp
  then show ?thesis by (simp add: generateCalendar_days monthKeys_def)
qed

lemma generateCalendar_frame:
  "calendarEvents (generateCalendar today d st) = calendarEvents st"
  "sessionNotifiedIds (generateCalendar today d st) = sessionNotifiedIds st"
  "currentEditingEvent (generateCalendar today d st) = currentEditingEvent st"
  "displayedDate (generateCalendar today d st) = displayedDate st"
  "notifications (generateCalendar today d st) = notifications st"
  "alerts (generateCalendar today d st) = alerts st"
proof -
  from generateCalendar_shape [of today d st] have
    a: "generateCalendar today d st =
     st\<lparr>calendarBody := calendarBody (generateCalendar today d st),
        events := sortedAt (set (dayKeys (concat (calendarBody (generateCalendar today d st))))) (events st)\<rparr>"
    by blast
  show "calendarEvents (generateCalendar today d st) = calendarEvents st" by (subst a) simp
  show "sessionNotifiedIds (generateCalendar today d st) = sessionNotifiedIds st" by (subst a) simp
  show "currentEditingEvent (generateCalendar today d st) = currentEditingEvent st" by (subst a) simp
  show "displayedDate (generateCalendar today d st) = displayedDate st" by (subst a) simp
  show "notifications (generateCalendar today d st) = notifications st" by (subst a) simp
  show "alerts (generateCalendar today d st) = alerts st" by (subst a) simp
qed

lemma generateCalendar_update:
  "generateCalendar today d st =
     st\<lparr>calendarBody := calendarBody (generateCalendar today d st),
        events := sortedAt (monthKeys d) (events st)\<rparr>"
proof -
  from generateCalendar_shape [of today d st] have
    a: "generateCalendar today d st =
     st\<lparr>calendarBody := calendarBody (generateCalendar today d st),
        events := sortedAt (set (dayKeys (concat (calendarBody (generateCalendar today d st))))) (events st)\<rparr>"
    by blast
  then show ?thesis by (simp add: generateCalendar_days monthKeys_def)
qed

lemma sortedAt_mset: "map_option mset (sortedAt K ev k) = map_option mset (ev k)"
  by (simp add: sortedAt_def option.map_comp comp_def sortBy_mset)

lemma monthKeys_mem:
  "1 \<le> n \<Longrightarrow> n \<le> 28 \<Longrightarrow> dateKey (fullYear d) (month d) n \<in> monthKeys d"
  using daysInMonthOf_range [of "fullYear d" "month d"] by (simp add: monthKeys_def)

lemma dayKeys_cell:
  "k \<in> set (dayKeys cs) \<Longrightarrow> \<exists>day t es. DayCell day k t es \<in> set cs"
proof (induction cs)
  case Nil
  then show ?case by (simp add: dayKeys_def)
next
  case (Cons c cs)
  show ?case
  proof (cases c)
    case EmptyCell
    with Cons show ?thesis by (auto simp: dayKeys_def)
  next
    case (DayCell day' k' t' es')
    with Cons show ?thesis by (auto simp: dayKeys_def)
  qed
qed

lemma cell_dayKeys:
  "DayCell day k t es \<in> set cs \<Longrightarrow> k \<in> set (dayKeys cs)"
  by (induction cs) (auto simp: dayKeys_def)

lemma sorted_untimed_first:
  "sorted (map time es) \<Longrightarrow> filter (\<lambda>e. time e = []) es @ filter (\<lambda>e. time e \<noteq> []) es = es"
proof (induction es)
  case Nil
  then show ?case by simp
next
  case (Cons e es)
  then have ih: "filter (\<lambda>e. time e = []) es @ filter (\<lambda>e. time e \<noteq> []) es = es"
    and le: "\<forall>x\<in>set es. time e \<le> time x" by simp_all
  show ?case
  proof (cases "time e = []")
    case True
    with ih show ?thesis by simp
  next
    case False
    have "\<forall>x\<in>set es. time x \<noteq> []"
    proof
      fix x assume "x \<in> set es"
      with le have "time e \<le> time x" by blast
      with False show "time x \<noteq> []" by auto
    qed
    then have "filter (\<lambda>e. time e = []) es = []" "filter (\<lambda>e. time e \<noteq> []) es = es"
      by (simp_all add: filter_empty_conv filter_id_conv)
    with False show ?thesis by simp
  qed
qed

lemmas key_eval = dateKey_def numToString_def natToString.simps digitChar_def clockAt_def

section \<open>The date keys and the length of the month\<close>

lemma digitVal_digitChar: "k < 10 \<Longrightarrow> digitVal (digitChar k) = int k"
proof -
  assume "k < 10"
  then have "k = 0 \<or> k = 1 \<or> k = 2 \<or> k = 3 \<or> k = 4 \<or> k = 5 \<or> k = 6 \<or> k = 7 \<or> k = 8 \<or> k = 9"
    by presburger
  then show ?thesis by (auto simp: digitVal_def digitChar_def)
qed

lemma digitChar_digit: "k < 10 \<Longrightarrow> isDigit (digitChar k)"
proof -
  assume "k < 10"
  then have "k = 0 \<or> k = 1 \<or> k = 2 \<or> k = 3 \<or> k = 4 \<or> k = 5 \<or> k = 6 \<or> k = 7 \<or> k = 8 \<or> k = 9"
    by presburger
  then show ?thesis by (auto simp: isDigit_def digitChar_def)
qed

lemma decimal_snoc: "decimal (xs @ [c]) = 10 * decimal xs + digitVal c"
  by (simp add: decimal_def)

lemma decimal_natToString: "decimal (natToString n) = int n"
proof (induction n rule: natToString.induct)
  case (1 n)
  have e: "natToString n =
      (if n < 10 then [digitChar n] else natToString (n div 10) @ [digitChar (n mod 10)])"
    by (rule natToString.simps)
  show ?case
  proof (cases "n < 10")
    case True
    then show ?thesis by (simp add: e decimal_def digitVal_digitChar)
  next
    case False
    have m: "n mod 10 < 10" by simp
    have "decimal (natToString n) = 10 * decimal (natToString (n div 10)) + digitVal (digitChar (n mod 10))"
      using False by (simp add: e decimal_snoc)
    also have "\<dots> = 10 * int (n div 10) + int (n mod 10)"
      using "1.IH" [OF False] by (simp add: digitVal_digitChar [OF m])
    also have "\<dots> = int n" by (simp add: zdiv_int zmod_int)
    finally show ?thesis .
  qed
qed

lemma natToString_digits: "list_all isDigit (natToString n) \<and> natToString n \<noteq> []"
proof (induction n rule: natToString.induct)
  case (1 n)
  have e: "natToString n =
      (if n < 10 then [digitChar n] else natToString (n div 10) @ [digitChar (n mod 10)])"
    by (rule natToString.simps)
  show ?case
  proof (cases "n < 10")
    case True
    then show ?thesis by (simp add: e digitChar_digit)
  next
    case False
    have m: "n mod 10 < 10" by simp
    from "1.IH" [OF False] False show ?thesis
      by (simp add: e digitChar_digit [OF m])
  qed
qed

lemma natToString_inj: "natToString a = natToString b \<Longrightarrow> a = b"
proof -
  assume e: "natToString a = natToString b"
  have "int a = decimal (natToString a)" by (simp only: decimal_natToString)
  also have "\<dots> = decimal (natToString b)" by (simp only: e)
  also have "\<dots> = int b" by (simp only: decimal_natToString)
  finally show ?thesis by simp
qed

lemma natToString_no_minus: "CHR ''-'' \<notin> set (natToString n)"
proof
  assume "CHR ''-'' \<in> set (natToString n)"
  with natToString_digits [of n] have "isDigit CHR ''-''" by (auto simp: list_all_iff)
  then show False by (simp add: isDigit_def)
qed

lemma numToString_inj: "numToString a = numToString b \<Longrightarrow> a = b"
proof -
  assume e: "numToString a = numToString b"
  have h: "\<And>n. hd (natToString n) \<noteq> CHR ''-''"
    using natToString_no_minus natToString_digits by (metis hd_in_set)
  show ?thesis
  proof (cases "a < 0")
    case True
    note a = True
    show ?thesis
    proof (cases "b < 0")
      case True
      with a e have "natToString (nat (- a)) = natToString (nat (- b))"
        by (simp add: numToString_def)
      then have "nat (- a) = nat (- b)" by (rule natToString_inj)
      with a True show ?thesis by simp
    next
      case False
      with a e have "CHR ''-'' # natToString (nat (- a)) = natToString (nat b)"
        by (simp add: numToString_def)
      then have "hd (natToString (nat b)) = CHR ''-''" by (metis list.sel(1))
      with h show ?thesis by blast
    qed
  next
    case False
    note a = False
    show ?thesis
    proof (cases "b < 0")
      case True
      with a e have "natToString (nat a) = CHR ''-'' # natToString (nat (- b))"
        by (simp add: numToString_def)
      then have "hd (natToString (nat a)) = CHR ''-''" by (metis list.sel(1))
      with h show ?thesis by blast
    next
      case False
      with a e have "natToString (nat a) = natToString (nat b)"
        by (simp add: numToString_def)
      then have "nat a = nat b" by (rule natToString_inj)
      with a False show ?thesis by simp
    qed
  qed
qed

lemma dateKey_inj_day: "dateKey y m a = dateKey y m b \<Longrightarrow> a = b"
  by (simp add: dateKey_def numToString_inj)

lemma split_str_plain: "c \<notin> set a \<Longrightarrow> split_str c a = [a]"
  by (induction a) auto

lemma split_str_sep: "c \<notin> set a \<Longrightarrow> split_str c (a @ c # b) = a # split_str c b"
  by (induction a) auto

lemma dateKey_decode:
  assumes "0 \<le> y" "0 \<le> m" "0 \<le> n"
  shows "map decimal (split_str CHR ''-'' (dateKey y m n)) = [y, m, n]"
proof -
  have k: "dateKey y m n = natToString (nat y) @ CHR ''-'' # (natToString (nat m) @ CHR ''-'' # natToString (nat n))"
    using assms by (simp add: dateKey_def numToString_def)
  have "split_str CHR ''-'' (dateKey y m n) = [natToString (nat y), natToString (nat m), natToString (nat n)]"
    unfolding k by (simp add: split_str_sep split_str_plain natToString_no_minus)
  then show ?thesis using assms by (simp add: decimal_natToString)
qed

lemma yearLen_exact:
  fixes y :: int
  defines "g \<equiv> \<lambda>y::int. (y div 400) * 146097 + (y mod 400) * 365 + (y mod 400) div 4 - (y mod 400) div 100"
  shows "g y - g (y - 1) = (if isLeapYear y then 366 else 365)"
proof (cases "y mod 400 = 0")
  case True
  have d: "(y - 1) div 400 = y div 400 - 1" and m: "(y - 1) mod 400 = 399"
    using pred_divmod_z [of 400 y] True by simp_all
  from True have "400 dvd y" by (simp add: mod_eq_0_iff_dvd)
  moreover have "(4::int) dvd 400" by simp
  ultimately have "4 dvd y" by (rule dvd_trans [rotated])
  then have "y mod 4 = 0" by (simp add: mod_eq_0_iff_dvd)
  with True have "isLeapYear y" by (simp add: isLeapYear_def)
  then show ?thesis unfolding g_def d m True by simp
next
  case False
  have d: "(y - 1) div 400 = y div 400" and m: "(y - 1) mod 400 = y mod 400 - 1"
    using pred_divmod_nz [of 400 y] False by simp_all
  let ?r = "y mod 400"
  have r4: "?r mod 4 = y mod 4" by (rule mod_mod_cancel) simp
  have r100: "?r mod 100 = y mod 100" by (rule mod_mod_cancel) simp
  have "g y - g (y - 1) = 365 + (?r div 4 - (?r - 1) div 4) - (?r div 100 - (?r - 1) div 100)"
    unfolding g_def d m by (simp add: algebra_simps)
  also have "?r div 4 - (?r - 1) div 4 = (if ?r mod 4 = 0 then 1 else 0)"
    by (rule div_step) simp
  also have "?r div 100 - (?r - 1) div 100 = (if ?r mod 100 = 0 then 1 else 0)"
    by (rule div_step) simp
  finally have e: "g y - g (y - 1) =
      365 + (if y mod 4 = 0 then 1 else 0) - (if y mod 100 = 0 then 1 else 0)"
    unfolding r4 r100 .
  show ?thesis
  proof (cases "y mod 100 = 0")
    case True
    with m100 [of y] have "y mod 4 = 0" by blast
    with True False e show ?thesis by (simp add: isLeapYear_def)
  next
    case False
    with e show ?thesis by (cases "y mod 4 = 0") (simp_all add: isLeapYear_def)
  qed
qed

lemma monthLen_feb_exact:
  "daysFromCivil z 2 - daysFromCivil z 1 = (if isLeapYear z then 29 else 28)"
proof -
  define G where "G = (\<lambda>y::int. (y div 400) * 146097 + (y mod 400) * 365
      + (y mod 400) div 4 - (y mod 400) div 100)"
  have e: "daysFromCivil z 2 - daysFromCivil z 1 = G z - G (z - 1) - 337"
    unfolding G_def by (simp add: daysFromCivil_alt Let_def)
  have y: "G z - G (z - 1) = (if isLeapYear z then 366 else 365)"
    unfolding G_def by (rule yearLen_exact)
  show ?thesis unfolding e y by simp
qed

lemma MakeDay_in_year: "0 \<le> m \<Longrightarrow> m \<le> 11 \<Longrightarrow> MakeDay y m d = daysFromCivil y m + d - 1"
  by (simp add: MakeDay_def)

lemma MakeDay_next_year: "MakeDay y 12 d = daysFromCivil (y + 1) 0 + d - 1"
  by (simp add: MakeDay_def)

lemma daysInMonthOf_table:
  assumes "0 \<le> m" "m \<le> 11"
  shows "daysInMonthOf y m = gregorianMonthLength (ctorYear y) m"
proof -
  let ?y = "ctorYear y"
  from assms have c: "m = 0 \<or> m = 1 \<or> m = 2 \<or> m = 3 \<or> m = 4 \<or> m = 5 \<or> m = 6
    \<or> m = 7 \<or> m = 8 \<or> m = 9 \<or> m = 10 \<or> m = 11" by presburger
  have f: "daysFromCivil ?y 1 - daysFromCivil ?y 0 = 31"
    "daysFromCivil ?y 3 - daysFromCivil ?y 2 = 31"
    "daysFromCivil ?y 4 - daysFromCivil ?y 3 = 30"
    "daysFromCivil ?y 5 - daysFromCivil ?y 4 = 31"
    "daysFromCivil ?y 6 - daysFromCivil ?y 5 = 30"
    "daysFromCivil ?y 7 - daysFromCivil ?y 6 = 31"
    "daysFromCivil ?y 8 - daysFromCivil ?y 7 = 31"
    "daysFromCivil ?y 9 - daysFromCivil ?y 8 = 30"
    "daysFromCivil ?y 10 - daysFromCivil ?y 9 = 31"
    "daysFromCivil ?y 11 - daysFromCivil ?y 10 = 30"
    "daysFromCivil (?y + 1) 0 - daysFromCivil ?y 11 = 31"
    by (rule monthLen_fixed)+
  note feb = monthLen_feb_exact [of ?y]
  from c show ?thesis
  proof (elim disjE)
    assume "m = 0" with f(1) show ?thesis
      by (simp add: daysInMonthOf_def MakeDay_in_year gregorianMonthLength_def)
  next
    assume "m = 1" with feb show ?thesis
      by (simp add: daysInMonthOf_def MakeDay_in_year gregorianMonthLength_def)
  next
    assume "m = 2" with f(2) show ?thesis
      by (simp add: daysInMonthOf_def MakeDay_in_year gregorianMonthLength_def)
  next
    assume "m = 3" with f(3) show ?thesis
      by (simp add: daysInMonthOf_def MakeDay_in_year gregorianMonthLength_def)
  next
    assume "m = 4" with f(4) show ?thesis
      by (simp add: daysInMonthOf_def MakeDay_in_year gregorianMonthLength_def)
  next
    assume "m = 5" with f(5) show ?thesis
      by (simp add: daysInMonthOf_def MakeDay_in_year gregorianMonthLength_def)
  next
    assume "m = 6" with f(6) show ?thesis
      by (simp add: daysInMonthOf_def MakeDay_in_year gregorianMonthLength_def)
  next
    assume "m = 7" with f(7) show ?thesis
      by (simp add: daysInMonthOf_def MakeDay_in_year gregorianMonthLength_def)
  next
    assume "m = 8" with f(8) show ?thesis
      by (simp add: daysInMonthOf_def MakeDay_in_year gregorianMonthLength_def)
  next
    assume "m = 9" with f(9) show ?thesis
      by (simp add: daysInMonthOf_def MakeDay_in_year gregorianMonthLength_def)
  next
    assume "m = 10" with f(10) show ?thesis
      by (simp add: daysInMonthOf_def MakeDay_in_year gregorianMonthLength_def)
  next
    assume "m = 11" with f(11) show ?thesis
      by (simp add: daysInMonthOf_def MakeDay_in_year MakeDay_next_year gregorianMonthLength_def)
  qed
qed

section \<open>The day cells of the grid\<close>

lemma cellOf_sortedAt: "cellOf T y m (sortedAt K ev) = cellOf T y m ev"
proof (rule ext)
  fix n
  show "cellOf T y m (sortedAt K ev) n = cellOf T y m ev n"
    by (cases "ev (dateKey y m n)")
       (simp_all add: cellOf_def sortedAt_def sortBy_sort_key sort_key_id_if_sorted)
qed

lemma renderDay_cell:
  "renderDay T y m day ev = (c, ev1) \<Longrightarrow> c = cellOf T y m ev day"
  using renderDay_store [of T y m day ev c ev1]
  by (cases "ev (dateKey y m day)") (simp_all add: cellOf_def sortBy_sort_key)

lemma fillRow_mono:
  "fillRow T y m f dim i js day ev = (cs, day', ev') \<Longrightarrow> day \<le> day'"
  using fillRow_days [of T y m f dim i js day ev cs day' ev'] by (auto split: if_splits)

lemma fillRow_cells:
  "fillRow T y m f dim i js day ev = (cs, day', ev') \<Longrightarrow>
     dayCells cs = map (cellOf T y m ev) [day..day' - 1]"
proof (induction js arbitrary: day ev cs day' ev')
  case Nil
  then show ?case by (auto simp: dayCells_def)
next
  case (Cons j js)
  show ?case
  proof (cases "(i = 0 \<and> j < f) \<or> day > dim")
    case True
    with Cons.prems obtain cs1 where
      r: "fillRow T y m f dim i js day ev = (cs1, day', ev')" and c: "cs = EmptyCell # cs1"
      by (auto split: prod.splits)
    from Cons.IH [OF r] c show ?thesis by (simp add: dayCells_def)
  next
    case False
    with Cons.prems obtain c ev1 cs1 where
      rd: "renderDay T y m day ev = (c, ev1)"
      and r: "fillRow T y m f dim i js (day + 1) ev1 = (cs1, day', ev')"
      and c: "cs = c # cs1"
      by (auto split: prod.splits)
    from renderDay_store [OF rd] have e1: "ev1 = sortedAt {dateKey y m day} ev" by simp
    from renderDay_cell [OF rd] have cc: "c = cellOf T y m ev day" .
    from Cons.IH [OF r] have "dayCells cs1 = map (cellOf T y m ev1) [day + 1..day' - 1]" .
    then have t: "dayCells cs1 = map (cellOf T y m ev) [day + 1..day' - 1]"
      unfolding e1 cellOf_sortedAt .
    from fillRow_mono [OF r] have "[day..day' - 1] = day # [day + 1..day' - 1]"
      by (simp add: upto_rec1)
    with t c cc show ?thesis by (simp add: dayCells_def cellOf_def)
  qed
qed

lemma fillRows_mono:
  "fillRows T y m f dim is day ev = (rows, day', ev') \<Longrightarrow> day \<le> day'"
proof (induction "is" arbitrary: day ev rows day' ev')
  case Nil
  then show ?case by simp
next
  case (Cons i "is")
  obtain row day1 ev1 where
    r: "fillRow T y m f dim i [0, 1, 2, 3, 4, 5, 6] day ev = (row, day1, ev1)"
    by (metis prod_cases3)
  note m1 = fillRow_mono [OF r]
  show ?case
  proof (cases "day1 > dim")
    case True
    with Cons.prems r m1 show ?thesis by simp
  next
    case False
    with Cons.prems r obtain rows1 where
      rr: "fillRows T y m f dim is day1 ev1 = (rows1, day', ev')"
      by (auto split: prod.splits)
    from Cons.IH [OF rr] m1 show ?thesis by simp
  qed
qed

lemma dayCells_append: "dayCells (a @ b) = dayCells a @ dayCells b"
  by (simp add: dayCells_def)

lemma fillRows_cells:
  "fillRows T y m f dim is day ev = (rows, day', ev') \<Longrightarrow>
     dayCells (concat rows) = map (cellOf T y m ev) [day..day' - 1]"
proof (induction "is" arbitrary: day ev rows day' ev')
  case Nil
  then show ?case by (auto simp: dayCells_def)
next
  case (Cons i "is")
  obtain row day1 ev1 where
    r: "fillRow T y m f dim i [0, 1, 2, 3, 4, 5, 6] day ev = (row, day1, ev1)"
    by (metis prod_cases3)
  from fillRow_store [OF r] have e1: "ev1 = sortedAt (set (dayKeys row)) ev" by simp
  note c1 = fillRow_cells [OF r]
  note m1 = fillRow_mono [OF r]
  show ?case
  proof (cases "day1 > dim")
    case True
    with Cons.prems r have "rows = [row]" "day' = day1" by simp_all
    with c1 show ?thesis by simp
  next
    case False
    with Cons.prems r obtain rows1 where
      rr: "fillRows T y m f dim is day1 ev1 = (rows1, day', ev')" and c: "rows = row # rows1"
      by (auto split: prod.splits)
    from Cons.IH [OF rr] have "dayCells (concat rows1) = map (cellOf T y m ev1) [day1..day' - 1]" .
    then have t: "dayCells (concat rows1) = map (cellOf T y m ev) [day1..day' - 1]"
      unfolding e1 cellOf_sortedAt .
    note m2 = fillRows_mono [OF rr]
    from m1 m2 have "[day..day' - 1] = [day..day1 - 1] @ [day1..day' - 1]"
      using upto_split1 [of day day1 "day' - 1"] by (cases "day1 = day'") auto
    with t c1 c show ?thesis by (simp add: dayCells_append)
  qed
qed

lemma length_dayKeys: "length (dayKeys cs) = length (dayCells cs)"
proof (induction cs)
  case Nil
  show ?case by (simp add: dayKeys_def dayCells_def)
next
  case (Cons c cs)
  then show ?case by (cases c) (simp_all add: dayKeys_def dayCells_def)
qed

lemma generateCalendar_cells:
  "dayCells (concat (calendarBody (generateCalendar today d st)))
     = map (cellOf (dateKey (fullYear today) (month today) (date today))
              (fullYear d) (month d) (events st))
         [1..daysInMonthOf (fullYear d) (month d)]"
proof -
  let ?dim = "daysInMonthOf (fullYear d) (month d)"
  obtain rows day' ev' where
    r: "fillRows (dateKey (fullYear today) (month today) (date today)) (fullYear d) (month d)
          (firstDayOf (fullYear d) (month d)) ?dim
          [0, 1, 2, 3, 4, 5] 1 (events st) = (rows, day', ev')"
    by (metis prod_cases3)
  then have g: "calendarBody (generateCalendar today d st) = rows"
    by (simp add: generateCalendar_def Let_def)
  from daysInMonthOf_range [of "fullYear d" "month d"]
  have dim: "1 \<le> ?dim" "?dim \<le> 36" by simp_all
  from grid_days [OF r] firstDayOf_range [of "fullYear d" "month d"] dim
  have k: "dayKeys (concat rows) = map (dateKey (fullYear d) (month d)) [1..?dim]" by blast
  note c = fillRows_cells [OF r]
  note m = fillRows_mono [OF r]
  have "length (dayKeys (concat rows)) = length (dayCells (concat rows))"
    by (rule length_dayKeys)
  then have "nat ?dim = nat (day' - 1)" unfolding k c by simp
  with dim m have "day' - 1 = ?dim" by simp
  with c show ?thesis unfolding g by simp
qed

text \<open>
  C6. For a displayed date with a month from 0 to 11, the day cells of the rendered month
  are, in order, those of the days 1 to the length of the month in the Gregorian calendar,
  each with its own date key (year, 0-based month and day in decimal, joined by \<open>-\<close>;
  distinct days have distinct keys), and each lists the events that the store has for its
  key, sorted by time in ascending order under the lexicographic order of the time strings,
  stably, with the events that have no time first; a date with the two events of times
  \<open>09:00\<close> and empty, in this order, is shown with the untimed event first.
\<close>

theorem renderMonth_lists_sorted:
  assumes "0 \<le> month d" and "month d \<le> 11"
  shows "dayCells (concat (calendarBody (generateCalendar today d st)))
           = map (\<lambda>n. DayCell n (dateKey (fullYear d) (month d) n)
                     (dateKey (fullYear d) (month d) n
                        = dateKey (fullYear today) (month today) (date today))
                     (sort_key time
                        (case events st (dateKey (fullYear d) (month d) n) of
                           None \<Rightarrow> [] | Some xs \<Rightarrow> xs)))
               [1..gregorianMonthLength (ctorYear (fullYear d)) (month d)]
       \<and> (\<forall>a b. dateKey (fullYear d) (month d) a = dateKey (fullYear d) (month d) b \<longrightarrow> a = b)
       \<and> (\<forall>n. 0 \<le> fullYear d \<and> 0 \<le> n \<longrightarrow>
             map decimal (split_str CHR ''-'' (dateKey (fullYear d) (month d) n))
               = [fullYear d, month d, n])
       \<and> (\<forall>day k t es.
             DayCell day k t es \<in> set (concat (calendarBody (generateCalendar today d st))) \<longrightarrow>
               1 \<le> day \<and> day \<le> gregorianMonthLength (ctorYear (fullYear d)) (month d)
             \<and> k = dateKey (fullYear d) (month d) day
             \<and> es = sort_key time (case events st k of None \<Rightarrow> [] | Some xs \<Rightarrow> xs)
             \<and> mset es = mset (case events st k of None \<Rightarrow> [] | Some xs \<Rightarrow> xs)
             \<and> sorted (map time es)
             \<and> filter (\<lambda>e. time e = []) es @ filter (\<lambda>e. time e \<noteq> []) es = es
             \<and> (\<forall>a b. events st k = Some [a, b] \<and> time a = ''09:00'' \<and> time b = []
                    \<longrightarrow> es = [b, a]))"
proof -
  let ?cells = "concat (calendarBody (generateCalendar today d st))"
  let ?N = "gregorianMonthLength (ctorYear (fullYear d)) (month d)"
  let ?key = "dateKey (fullYear d) (month d)"
  let ?T = "dateKey (fullYear today) (month today) (date today)"
  have c: "dayCells ?cells = map (cellOf ?T (fullYear d) (month d) (events st)) [1..?N]"
    using generateCalendar_cells [of today d st] daysInMonthOf_table [OF assms, of "fullYear d"]
    by simp
  have 1: "dayCells ?cells
           = map (\<lambda>n. DayCell n (?key n) (?key n = ?T)
                     (sort_key time (case events st (?key n) of None \<Rightarrow> [] | Some xs \<Rightarrow> xs)))
               [1..?N]"
    unfolding c by (simp add: cellOf_def [abs_def])
  have 2: "\<forall>a b. ?key a = ?key b \<longrightarrow> a = b"
    using dateKey_inj_day by blast
  have 3: "\<forall>n. 0 \<le> fullYear d \<and> 0 \<le> n \<longrightarrow>
             map decimal (split_str CHR ''-'' (?key n)) = [fullYear d, month d, n]"
    using dateKey_decode assms(1) by blast
  have 4: "\<forall>day k t es. DayCell day k t es \<in> set ?cells \<longrightarrow>
               1 \<le> day \<and> day \<le> ?N
             \<and> k = ?key day
             \<and> es = sort_key time (case events st k of None \<Rightarrow> [] | Some xs \<Rightarrow> xs)
             \<and> mset es = mset (case events st k of None \<Rightarrow> [] | Some xs \<Rightarrow> xs)
             \<and> sorted (map time es)
             \<and> filter (\<lambda>e. time e = []) es @ filter (\<lambda>e. time e \<noteq> []) es = es
             \<and> (\<forall>a b. events st k = Some [a, b] \<and> time a = ''09:00'' \<and> time b = []
                    \<longrightarrow> es = [b, a])"
  proof (intro allI impI)
    fix day k t es
    assume "DayCell day k t es \<in> set ?cells"
    then have "DayCell day k t es \<in> set (dayCells ?cells)" by (simp add: dayCells_def)
    then obtain n where n: "1 \<le> n" "n \<le> ?N"
      and e: "DayCell day k t es = cellOf ?T (fullYear d) (month d) (events st) n"
      unfolding c by auto
    from e have dn: "day = n" and k: "k = ?key day"
      and es: "es = sort_key time (case events st k of None \<Rightarrow> [] | Some xs \<Rightarrow> xs)"
      by (simp_all add: cellOf_def)
    from es have s: "sorted (map time es)" by simp
    have ms: "mset es = mset (case events st k of None \<Rightarrow> [] | Some xs \<Rightarrow> xs)"
      by (subst es) simp
    have sc: "\<forall>a b. events st k = Some [a, b] \<and> time a = ''09:00'' \<and> time b = [] \<longrightarrow> es = [b, a]"
      using es by auto
    from n dn k es ms s sorted_untimed_first [OF s] sc
    show "1 \<le> day \<and> day \<le> ?N
             \<and> k = ?key day
             \<and> es = sort_key time (case events st k of None \<Rightarrow> [] | Some xs \<Rightarrow> xs)
             \<and> mset es = mset (case events st k of None \<Rightarrow> [] | Some xs \<Rightarrow> xs)
             \<and> sorted (map time es)
             \<and> filter (\<lambda>e. time e = []) es @ filter (\<lambda>e. time e \<noteq> []) es = es
             \<and> (\<forall>a b. events st k = Some [a, b] \<and> time a = ''09:00'' \<and> time b = []
                    \<longrightarrow> es = [b, a])"
      by (intro conjI) simp_all
  qed
  from 1 2 3 4 show ?thesis by (intro conjI)
qed

theorem renderMonth_lists_sorted_witness:
  "DayCell 10 ''2024-4-10'' False
       [\<lparr>id_ev = 2, text_ev = ''Birthday'', time = [], reminder = ''none''\<rparr>,
        \<lparr>id_ev = 1, text_ev = ''Standup'', time = ''09:00'', reminder = ''none''\<rparr>]
     \<in> set (concat (calendarBody
          (generateCalendar (clockAt 2024 4 9 8 0) (clockAt 2024 4 9 8 0)
             (sessionStart (clockAt 2024 4 9 8 0)
                (Some [''2024-4-10'' \<mapsto>
                   [\<lparr>id_ev = 1, text_ev = ''Standup'', time = ''09:00'', reminder = ''none''\<rparr>,
                    \<lparr>id_ev = 2, text_ev = ''Birthday'', time = [], reminder = ''none''\<rparr>]])))))
   \<and> DayCell 9 ''2024-4-9'' True []
     \<in> set (concat (calendarBody
          (generateCalendar (clockAt 2024 4 9 8 0) (clockAt 2024 4 9 8 0)
             (sessionStart (clockAt 2024 4 9 8 0)
                (Some [''2024-4-10'' \<mapsto>
                   [\<lparr>id_ev = 1, text_ev = ''Standup'', time = ''09:00'', reminder = ''none''\<rparr>,
                    \<lparr>id_ev = 2, text_ev = ''Birthday'', time = [], reminder = ''none''\<rparr>]])))))
   \<and> DayCell 31 ''2024-4-31'' False []
     \<in> set (concat (calendarBody
          (generateCalendar (clockAt 2024 4 9 8 0) (clockAt 2024 4 9 8 0)
             (sessionStart (clockAt 2024 4 9 8 0)
                (Some [''2024-4-10'' \<mapsto>
                   [\<lparr>id_ev = 1, text_ev = ''Standup'', time = ''09:00'', reminder = ''none''\<rparr>,
                    \<lparr>id_ev = 2, text_ev = ''Birthday'', time = [], reminder = ''none''\<rparr>]])))))
   \<and> length (dayCells (concat (calendarBody
          (generateCalendar (clockAt 2024 4 9 8 0) (clockAt 2024 4 9 8 0)
             (sessionStart (clockAt 2024 4 9 8 0)
                (Some [''2024-4-10'' \<mapsto>
                   [\<lparr>id_ev = 1, text_ev = ''Standup'', time = ''09:00'', reminder = ''none''\<rparr>,
                    \<lparr>id_ev = 2, text_ev = ''Birthday'', time = [], reminder = ''none''\<rparr>]])))))) = 31"
proof -
  define d where "d = clockAt 2024 4 9 8 0"
  define st where "st = sessionStart d
                (Some [''2024-4-10'' \<mapsto>
                   [\<lparr>id_ev = 1, text_ev = ''Standup'', time = ''09:00'', reminder = ''none''\<rparr>,
                    \<lparr>id_ev = 2, text_ev = ''Birthday'', time = [], reminder = ''none''\<rparr>]])"
  define cells where "cells = concat (calendarBody (generateCalendar d d st))"
  define f where "f = (\<lambda>n. DayCell n (dateKey (fullYear d) (month d) n)
                     (dateKey (fullYear d) (month d) n
                        = dateKey (fullYear d) (month d) (date d))
                     (sort_key time
                        (case events st (dateKey (fullYear d) (month d) n) of
                           None \<Rightarrow> [] | Some xs \<Rightarrow> xs)))"
  have m: "0 \<le> month d" "month d \<le> 11" by (simp_all add: d_def clockAt_def)
  have N: "gregorianMonthLength (ctorYear (fullYear d)) (month d) = 31"
    by (simp add: d_def clockAt_def gregorianMonthLength_def)
  from renderMonth_lists_sorted [OF m, of d st]
  have c: "dayCells cells = map f [1..31]" unfolding cells_def f_def N by blast
  have s: "set (dayCells cells) \<subseteq> set cells" by (simp add: dayCells_def)
  have i: "f n \<in> set cells" if "1 \<le> n" "n \<le> 31" for n
  proof -
    from that have "f n \<in> set (map f [1..31])" by simp
    with c s show ?thesis by auto
  qed
  have k: "dateKey (fullYear d) (month d) 10 = ''2024-4-10''"
    "dateKey (fullYear d) (month d) 9 = ''2024-4-9''"
    "dateKey (fullYear d) (month d) 31 = ''2024-4-31''"
    "dateKey (fullYear d) (month d) (date d) = ''2024-4-9''"
    by (simp_all add: d_def key_eval)
  have "f 10 = DayCell 10 ''2024-4-10'' False
       [\<lparr>id_ev = 2, text_ev = ''Birthday'', time = [], reminder = ''none''\<rparr>,
        \<lparr>id_ev = 1, text_ev = ''Standup'', time = ''09:00'', reminder = ''none''\<rparr>]"
    unfolding f_def k by (simp add: st_def sessionStart_def)
  moreover have "f 9 = DayCell 9 ''2024-4-9'' True []"
    unfolding f_def k by (simp add: st_def sessionStart_def)
  moreover have "f 31 = DayCell 31 ''2024-4-31'' False []"
    unfolding f_def k by (simp add: st_def sessionStart_def)
  moreover have "length (dayCells cells) = 31" unfolding c by simp
  ultimately have "DayCell 10 ''2024-4-10'' False
       [\<lparr>id_ev = 2, text_ev = ''Birthday'', time = [], reminder = ''none''\<rparr>,
        \<lparr>id_ev = 1, text_ev = ''Standup'', time = ''09:00'', reminder = ''none''\<rparr>] \<in> set cells
     \<and> DayCell 9 ''2024-4-9'' True [] \<in> set cells
     \<and> DayCell 31 ''2024-4-31'' False [] \<in> set cells
     \<and> length (dayCells cells) = 31"
    using i [of 10] i [of 9] i [of 31] by simp
  then show ?thesis unfolding cells_def st_def d_def .
qed

text \<open>
  C7 (as amended). Rendering a month persists nothing and adds, removes or changes no event:
  each date keeps the same events. It does reorder the store: the list of every date of the
  displayed month is sorted by time in place, and the lists of the other dates stay as
  they are. Nothing but the grid and the store's order changes.
\<close>

theorem renderMonth_frame:
  "generateCalendar today d st =
     st\<lparr>calendarBody := calendarBody (generateCalendar today d st),
        events := events (generateCalendar today d st)\<rparr>
   \<and> calendarEvents (generateCalendar today d st) = calendarEvents st
   \<and> events (generateCalendar today d st) k =
       (if k \<in> monthKeys d then map_option (sort_key time) (events st k) else events st k)
   \<and> map_option mset (events (generateCalendar today d st) k) = map_option mset (events st k)
   \<and> dom (events (generateCalendar today d st)) = dom (events st)"
proof -
  from generateCalendar_shape [of today d st] have
    a: "generateCalendar today d st =
     st\<lparr>calendarBody := calendarBody (generateCalendar today d st),
        events := sortedAt (set (dayKeys (concat (calendarBody (generateCalendar today d st))))) (events st)\<rparr>"
    by blast
  have 1: "generateCalendar today d st =
     st\<lparr>calendarBody := calendarBody (generateCalendar today d st),
        events := events (generateCalendar today d st)\<rparr>"
    using generateCalendar_update [of today d st] by (simp add: generateCalendar_events)
  have 2: "events (generateCalendar today d st) k =
       (if k \<in> monthKeys d then map_option (sort_key time) (events st k) else events st k)"
    by (simp add: generateCalendar_events sortedAt_def sortBy_sort_key [abs_def])
  have 3: "map_option mset (events (generateCalendar today d st) k) = map_option mset (events st k)"
    by (simp add: generateCalendar_events sortedAt_mset)
  have 4: "dom (events (generateCalendar today d st)) = dom (events st)"
    by (auto simp: generateCalendar_events sortedAt_def dom_def)
  from 1 2 3 4 generateCalendar_frame(1) [of today d st] show ?thesis by blast
qed

text \<open>
  C7 as stated fails: rendering May 2024 over a store that holds, for the tenth, an event at
  \<open>09:00\<close> followed by an untimed one leaves the store with the two in the other order.
\<close>

theorem renderMonth_reorders_store:
  "events
     (sessionStart (clockAt 2024 4 9 8 0)
        (Some [''2024-4-10'' \<mapsto>
           [\<lparr>id_ev = 1, text_ev = ''Standup'', time = ''09:00'', reminder = ''none''\<rparr>,
            \<lparr>id_ev = 2, text_ev = ''Birthday'', time = '''', reminder = ''none''\<rparr>]]))
     ''2024-4-10''
   = Some [\<lparr>id_ev = 1, text_ev = ''Standup'', time = ''09:00'', reminder = ''none''\<rparr>,
           \<lparr>id_ev = 2, text_ev = ''Birthday'', time = '''', reminder = ''none''\<rparr>]
   \<and> events
     (generateCalendar (clockAt 2024 4 9 8 0) (clockAt 2024 4 9 8 0)
        (sessionStart (clockAt 2024 4 9 8 0)
          (Some [''2024-4-10'' \<mapsto>
             [\<lparr>id_ev = 1, text_ev = ''Standup'', time = ''09:00'', reminder = ''none''\<rparr>,
              \<lparr>id_ev = 2, text_ev = ''Birthday'', time = '''', reminder = ''none''\<rparr>]])))
     ''2024-4-10''
   = Some [\<lparr>id_ev = 2, text_ev = ''Birthday'', time = '''', reminder = ''none''\<rparr>,
           \<lparr>id_ev = 1, text_ev = ''Standup'', time = ''09:00'', reminder = ''none''\<rparr>]"
proof -
  let ?d = "clockAt 2024 4 9 8 0"
  have "dateKey (fullYear ?d) (month ?d) 10 \<in> monthKeys ?d" by (rule monthKeys_mem) simp_all
  moreover have "dateKey (fullYear ?d) (month ?d) 10 = ''2024-4-10''" by (simp add: key_eval)
  ultimately have "''2024-4-10'' \<in> monthKeys ?d" by simp
  then show ?thesis
    by (simp add: generateCalendar_events sortedAt_def sessionStart_def sortBy_def
        eventCompare_def localeCompare_def)
qed

section \<open>Properties of creating, editing and deleting\<close>

lemma findIndex_None: "findIndex P xs = None \<longleftrightarrow> (\<forall>x\<in>set xs. \<not> P x)"
  by (induction xs) auto

lemma findIndex_Some:
  "findIndex P xs = Some n \<Longrightarrow> n < length xs \<and> P (xs ! n) \<and> (\<forall>m<n. \<not> P (xs ! m))"
proof (induction xs arbitrary: n)
  case Nil
  then show ?case by simp
next
  case (Cons x xs)
  show ?case
  proof (cases "P x")
    case True
    with Cons.prems show ?thesis by simp
  next
    case False
    with Cons.prems obtain k where k: "findIndex P xs = Some k" and n: "n = Suc k" by auto
    from Cons.IH [OF k] False n show ?thesis by (auto simp: nth_Cons split: nat.splits)
  qed
qed

lemma storeEvent_other: "k \<noteq> d \<Longrightarrow> storeEvent d i txt tm rem ev k = ev k"
  by (simp add: storeEvent_def Let_def split: option.splits)

lemma storeEvent_new_bucket:
  "ev d = None \<Longrightarrow>
     storeEvent d i txt tm rem ev d = Some [\<lparr>id_ev = i, text_ev = txt, time = tm, reminder = rem\<rparr>]"
  by (simp add: storeEvent_def)

lemma storeEvent_append:
  "ev d = Some es \<Longrightarrow> i \<notin> id_ev ` set es \<Longrightarrow>
     storeEvent d i txt tm rem ev d
       = Some (es @ [\<lparr>id_ev = i, text_ev = txt, time = tm, reminder = rem\<rparr>])"
proof -
  assume a: "ev d = Some es" and b: "i \<notin> id_ev ` set es"
  from b have "findIndex (\<lambda>e. id_ev e = i) es = None" by (auto simp: findIndex_None)
  with a show ?thesis by (simp add: storeEvent_def)
qed

lemma storeEvent_replace:
  assumes a: "ev d = Some es" and b: "i \<in> id_ev ` set es"
  shows "\<exists>n<length es. id_ev (es ! n) = i \<and> (\<forall>m<n. id_ev (es ! m) \<noteq> i)
           \<and> storeEvent d i txt tm rem ev d
               = Some (es[n := \<lparr>id_ev = i, text_ev = txt, time = tm, reminder = rem\<rparr>])"
proof -
  from b have "findIndex (\<lambda>e. id_ev e = i) es \<noteq> None" by (auto simp: findIndex_None)
  then obtain n where n: "findIndex (\<lambda>e. id_ev e = i) es = Some n" by blast
  from findIndex_Some [OF n] have p: "n < length es" "id_ev (es ! n) = i"
    "\<forall>m<n. id_ev (es ! m) \<noteq> i" by simp_all
  have "(es ! n)\<lparr>text_ev := txt, time := tm, reminder := rem\<rparr>
          = \<lparr>id_ev = i, text_ev = txt, time = tm, reminder = rem\<rparr>"
    using p(2) by (cases "es ! n") simp
  with a n have "storeEvent d i txt tm rem ev d
               = Some (es[n := \<lparr>id_ev = i, text_ev = txt, time = tm, reminder = rem\<rparr>])"
    by (simp add: storeEvent_def)
  with p show ?thesis by blast
qed

lemma save_valid:
  assumes "currentEditingEvent st = Some (d, i)" "trim eventInput \<noteq> []"
    "\<not> (rem \<noteq> ''none'' \<and> tm = [])"
  shows "saveEventBtn_click today eventInput tm rem st =
     closeEventModal (generateCalendar today (displayedDate st)
        (saveEvents (st\<lparr>events := storeEvent d i (trim eventInput) tm rem (events st)\<rparr>)))"
  using assms by (auto simp: saveEventBtn_click_def Let_def)

text \<open>
  C3. A create-or-update attempt whose trimmed text is empty, or whose reminder is not
  \<open>none\<close> while its time is empty, is rejected: the store is exactly what it was and
  nothing is written to the storage; the state is unchanged but for the alert shown in the
  second case.
\<close>

theorem createOrUpdate_rejects_invalid:
  assumes "trim eventInput = [] \<or> (rem \<noteq> ''none'' \<and> tm = [])"
  shows "events (saveEventBtn_click today eventInput tm rem st) = events st
       \<and> calendarEvents (saveEventBtn_click today eventInput tm rem st) = calendarEvents st
       \<and> (saveEventBtn_click today eventInput tm rem st = st
          \<or> saveEventBtn_click today eventInput tm rem st
               = st\<lparr>alerts := alerts st @ [''Please set an event time to add a reminder.'']\<rparr>)"
  using assms by (auto simp: saveEventBtn_click_def Let_def split: option.splits)

theorem createOrUpdate_rejects_invalid_witness:
  "events (saveEventBtn_click (clockAt 2024 4 9 8 0) ''Meeting'' [] ''30''
       (openEventModal 1715300000000 ''2024-4-10'' None (sessionStart (clockAt 2024 4 9 8 0) None)))
     = events (openEventModal 1715300000000 ''2024-4-10'' None (sessionStart (clockAt 2024 4 9 8 0) None))
   \<and> calendarEvents (saveEventBtn_click (clockAt 2024 4 9 8 0) ''Meeting'' [] ''30''
       (openEventModal 1715300000000 ''2024-4-10'' None (sessionStart (clockAt 2024 4 9 8 0) None)))
     = calendarEvents
         (openEventModal 1715300000000 ''2024-4-10'' None (sessionStart (clockAt 2024 4 9 8 0) None))
   \<and> events (saveEventBtn_click (clockAt 2024 4 9 8 0) ''  '' ''14:00'' ''30''
       (openEventModal 1715300000000 ''2024-4-10'' None (sessionStart (clockAt 2024 4 9 8 0) None)))
     = events (openEventModal 1715300000000 ''2024-4-10'' None (sessionStart (clockAt 2024 4 9 8 0) None))
   \<and> events (saveEventBtn_click (clockAt 2024 4 9 8 0)
         [CHR 0xC2, CHR 0xA0, CHR 0xE3, CHR 0x80, CHR 0x80] ''14:00'' ''none''
       (openEventModal 1715300000000 ''2024-4-10'' None (sessionStart (clockAt 2024 4 9 8 0) None)))
     = events (openEventModal 1715300000000 ''2024-4-10'' None (sessionStart (clockAt 2024 4 9 8 0) None))
   \<and> calendarEvents (saveEventBtn_click (clockAt 2024 4 9 8 0)
         [CHR 0xC2, CHR 0xA0, CHR 0xE3, CHR 0x80, CHR 0x80] ''14:00'' ''none''
       (openEventModal 1715300000000 ''2024-4-10'' None (sessionStart (clockAt 2024 4 9 8 0) None)))
     = calendarEvents
         (openEventModal 1715300000000 ''2024-4-10'' None (sessionStart (clockAt 2024 4 9 8 0) None))"
proof -
  let ?s = "openEventModal 1715300000000 ''2024-4-10'' None (sessionStart (clockAt 2024 4 9 8 0) None)"
  have a: "trim ''Meeting'' = [] \<or> (''30'' \<noteq> ''none'' \<and> ([]::string) = [])" by simp
  have b: "trim ''  '' = [] \<or> (''30'' \<noteq> ''none'' \<and> ''14:00'' = [])"
    by (simp add: trim_eval)
  have c: "trim [CHR 0xC2, CHR 0xA0, CHR 0xE3, CHR 0x80, CHR 0x80] = []
      \<or> (''none'' \<noteq> ''none'' \<and> ''14:00'' = [])"
    by (simp add: trim_eval)
  from createOrUpdate_rejects_invalid [OF a, of "clockAt 2024 4 9 8 0" ?s]
    createOrUpdate_rejects_invalid [OF b, of "clockAt 2024 4 9 8 0" ?s]
    createOrUpdate_rejects_invalid [OF c, of "clockAt 2024 4 9 8 0" ?s]
  show ?thesis by blast
qed


text \<open>
  C5. A create-or-update with valid inputs (a dialog is open, the trimmed text is not empty,
  and the time is set when a reminder is) changes the list of the dialog's date only: when
  an event with the dialog's id is in that list, the first such event is replaced by one
  with the same id and the new text, time and reminder; otherwise the new event is appended,
  to a fresh list when the date had none. The store so updated is what is persisted; the
  render that follows sorts the lists of the displayed month, keeping each date's events.
\<close>

theorem createOrUpdate_stores_and_persists:
  assumes "currentEditingEvent st = Some (d, i)"
    and "trim eventInput \<noteq> []"
    and "\<not> (rem \<noteq> ''none'' \<and> tm = [])"
  shows "\<exists>upd.
      calendarEvents (saveEventBtn_click today eventInput tm rem st) = Some upd
    \<and> events (saveEventBtn_click today eventInput tm rem st)
        = sortedAt (monthKeys (displayedDate st)) upd
    \<and> (\<forall>k. map_option mset (events (saveEventBtn_click today eventInput tm rem st) k)
             = map_option mset (upd k))
    \<and> (\<forall>k. k \<noteq> d \<longrightarrow> upd k = events st k)
    \<and> (events st d = None \<longrightarrow>
          upd d = Some [\<lparr>id_ev = i, text_ev = trim eventInput, time = tm, reminder = rem\<rparr>])
    \<and> (\<forall>es. events st d = Some es \<and> i \<notin> id_ev ` set es \<longrightarrow>
          upd d = Some (es @ [\<lparr>id_ev = i, text_ev = trim eventInput, time = tm, reminder = rem\<rparr>]))
    \<and> (\<forall>es. events st d = Some es \<and> i \<in> id_ev ` set es \<longrightarrow>
          (\<exists>n<length es. id_ev (es ! n) = i \<and> (\<forall>m<n. id_ev (es ! m) \<noteq> i)
             \<and> upd d = Some (es[n := \<lparr>id_ev = i, text_ev = trim eventInput, time = tm,
                                        reminder = rem\<rparr>])))
    \<and> currentEditingEvent (saveEventBtn_click today eventInput tm rem st) = None"
proof -
  let ?upd = "storeEvent d i (trim eventInput) tm rem (events st)"
  let ?st' = "saveEventBtn_click today eventInput tm rem st"
  note v = save_valid [OF assms, of today]
  have 1: "calendarEvents ?st' = Some ?upd"
    unfolding v by (simp add: closeEventModal_def generateCalendar_frame saveEvents_def)
  have 2: "events ?st' = sortedAt (monthKeys (displayedDate st)) ?upd"
    unfolding v by (simp add: closeEventModal_def generateCalendar_events saveEvents_def)
  have 3: "\<forall>k. map_option mset (events ?st' k) = map_option mset (?upd k)"
    unfolding 2 by (simp add: sortedAt_mset)
  have 4: "\<forall>k. k \<noteq> d \<longrightarrow> ?upd k = events st k" by (simp add: storeEvent_other)
  have 5: "currentEditingEvent ?st' = None" unfolding v by (simp add: closeEventModal_def)
  have 6: "events st d = None \<longrightarrow>
          ?upd d = Some [\<lparr>id_ev = i, text_ev = trim eventInput, time = tm, reminder = rem\<rparr>]"
    by (simp add: storeEvent_new_bucket)
  have 7: "\<forall>es. events st d = Some es \<and> i \<notin> id_ev ` set es \<longrightarrow>
          ?upd d = Some (es @ [\<lparr>id_ev = i, text_ev = trim eventInput, time = tm, reminder = rem\<rparr>])"
    using storeEvent_append [of "events st" d _ i "trim eventInput" tm rem] by blast
  have 8: "\<forall>es. events st d = Some es \<and> i \<in> id_ev ` set es \<longrightarrow>
          (\<exists>n<length es. id_ev (es ! n) = i \<and> (\<forall>m<n. id_ev (es ! m) \<noteq> i)
             \<and> ?upd d = Some (es[n := \<lparr>id_ev = i, text_ev = trim eventInput, time = tm,
                                        reminder = rem\<rparr>]))"
    using storeEvent_replace [of "events st" d _ i "trim eventInput" tm rem] by blast
  show ?thesis
    apply (rule exI [of _ ?upd])
    using 1 2 3 4 6 7 8 5 by (intro conjI)
qed

theorem createOrUpdate_stores_and_persists_witness:
  "\<exists>upd.
      calendarEvents (saveEventBtn_click (clockAt 2024 4 9 8 0) ''Meeting'' ''14:00'' ''30''
         (openEventModal 1715300000000 ''2024-4-10'' None (sessionStart (clockAt 2024 4 9 8 0) None)))
        = Some upd
    \<and> upd ''2024-4-10''
        = Some [\<lparr>id_ev = 1715300000000, text_ev = ''Meeting'', time = ''14:00'', reminder = ''30''\<rparr>]"
proof -
  let ?s = "openEventModal 1715300000000 ''2024-4-10'' None (sessionStart (clockAt 2024 4 9 8 0) None)"
  have a: "currentEditingEvent ?s = Some (''2024-4-10'', 1715300000000)"
    by (simp add: openEventModal_def)
  have b: "trim ''Meeting'' \<noteq> []" by (simp add: trim_eval)
  have c: "\<not> (''30'' \<noteq> ''none'' \<and> ''14:00'' = [])" by simp
  have t: "trim ''Meeting'' = ''Meeting''" by (simp add: trim_eval)
  have e: "events ?s ''2024-4-10'' = None" by (simp add: openEventModal_def sessionStart_def)
  from createOrUpdate_stores_and_persists [OF a b c, of "clockAt 2024 4 9 8 0"] e
  show ?thesis unfolding t by blast
qed


lemma removeEvent_at:
  "removeEvent d i es ev =
     ev(d := if filter (\<lambda>e. id_ev e \<noteq> i) es = [] then None
             else Some (filter (\<lambda>e. id_ev e \<noteq> i) es))"
  by (simp add: removeEvent_def Let_def)

text \<open>
  C4. For a date key that is in the store, deleting the event of a given id removes every
  event of that id from the date's list and keeps the others; when no event is left the
  date key itself is removed, so that a later lookup finds no list rather than an empty one;
  the id is removed from the set of notified ids; and the store so updated is persisted.
\<close>

theorem deleteEvent_removes:
  assumes "events st d = Some es"
  shows "\<exists>st'. confirmYesBtn_click today d i st = Inr st'
    \<and> calendarEvents st'
        = Some ((events st)(d := if filter (\<lambda>e. id_ev e \<noteq> i) es = [] then None
                                 else Some (filter (\<lambda>e. id_ev e \<noteq> i) es)))
    \<and> (filter (\<lambda>e. id_ev e \<noteq> i) es = [] \<longrightarrow> events st' d = None)
    \<and> (filter (\<lambda>e. id_ev e \<noteq> i) es \<noteq> [] \<longrightarrow>
          (\<exists>es'. events st' d = Some es' \<and> mset es' = mset (filter (\<lambda>e. id_ev e \<noteq> i) es)))
    \<and> (\<forall>es'. events st' d = Some es' \<longrightarrow> es' \<noteq> [] \<and> i \<notin> id_ev ` set es')
    \<and> (\<forall>k. k \<noteq> d \<longrightarrow> map_option mset (events st' k) = map_option mset (events st k))
    \<and> events st' = sortedAt (monthKeys (displayedDate st))
          ((events st)(d := if filter (\<lambda>e. id_ev e \<noteq> i) es = [] then None
                             else Some (filter (\<lambda>e. id_ev e \<noteq> i) es)))
    \<and> sessionNotifiedIds st' = sessionNotifiedIds st - {i}"
proof -
  let ?f = "filter (\<lambda>e. id_ev e \<noteq> i) es"
  let ?upd = "(events st)(d := if ?f = [] then None else Some ?f)"
  let ?st' = "generateCalendar today (displayedDate st)
                 (saveEvents
                    (st\<lparr>events := removeEvent d i es (events st),
                        sessionNotifiedIds := sessionNotifiedIds st - {i}\<rparr>))"
  have r: "confirmYesBtn_click today d i st = Inr ?st'"
    using assms by (simp add: confirmYesBtn_click_def)
  have 1: "calendarEvents ?st' = Some ?upd"
    by (simp add: generateCalendar_frame saveEvents_def removeEvent_at)
  have 2: "events ?st' = sortedAt (monthKeys (displayedDate st)) ?upd"
    by (simp add: generateCalendar_events saveEvents_def removeEvent_at)
  have 3: "sessionNotifiedIds ?st' = sessionNotifiedIds st - {i}"
    by (simp add: generateCalendar_frame saveEvents_def)
  have m: "\<And>k. map_option mset (events ?st' k) = map_option mset (?upd k)"
    unfolding 2 by (simp add: sortedAt_mset)
  have 4: "?f = [] \<longrightarrow> events ?st' d = None"
    using m [of d] by auto
  have 5: "?f \<noteq> [] \<longrightarrow> (\<exists>es'. events ?st' d = Some es' \<and> mset es' = mset ?f)"
    using m [of d] by auto
  have 6: "\<forall>es'. events ?st' d = Some es' \<longrightarrow> es' \<noteq> [] \<and> i \<notin> id_ev ` set es'"
  proof (intro allI impI)
    fix es' assume a: "events ?st' d = Some es'"
    with m [of d] have "?f \<noteq> []" and ms: "mset es' = mset ?f" by (auto split: if_splits)
    from ms have "set es' = set ?f" by (rule mset_eq_setD)
    with \<open>?f \<noteq> []\<close> ms show "es' \<noteq> [] \<and> i \<notin> id_ev ` set es'" by auto
  qed
  have 7: "\<forall>k. k \<noteq> d \<longrightarrow> map_option mset (events ?st' k) = map_option mset (events st k)"
    using m by simp
  show ?thesis
    apply (rule exI [of _ ?st'])
    using r 1 4 5 6 7 2 3 by (intro conjI)
qed

theorem deleteEvent_removes_witness:
  "\<exists>st'. confirmYesBtn_click (clockAt 2024 4 9 8 0) ''2024-4-10'' 7
       (sessionStart (clockAt 2024 4 9 8 0)
          (Some [''2024-4-10'' \<mapsto>
             [\<lparr>id_ev = 7, text_ev = ''Meeting'', time = ''14:00'', reminder = ''30''\<rparr>]])) = Inr st'
     \<and> events st' ''2024-4-10'' = None
     \<and> 7 \<notin> sessionNotifiedIds st'"
proof -
  let ?s = "sessionStart (clockAt 2024 4 9 8 0)
          (Some [''2024-4-10'' \<mapsto>
             [\<lparr>id_ev = 7, text_ev = ''Meeting'', time = ''14:00'', reminder = ''30''\<rparr>]])"
  have a: "events ?s ''2024-4-10''
      = Some [\<lparr>id_ev = 7, text_ev = ''Meeting'', time = ''14:00'', reminder = ''30''\<rparr>]"
    by (simp add: sessionStart_def)
  have f: "filter (\<lambda>e. id_ev e \<noteq> 7)
      [\<lparr>id_ev = 7, text_ev = ''Meeting'', time = ''14:00'', reminder = ''30''\<rparr>] = []" by simp
  from deleteEvent_removes [OF a, of "clockAt 2024 4 9 8 0" 7] f
  show ?thesis by auto
qed


section \<open>Event ids in the reachable states\<close>

lemma across_idsAt:
  "idsUniqueAcrossStore ev \<longleftrightarrow>
     idsUniqueWithinDates ev \<and> (\<forall>d d'. d \<noteq> d' \<longrightarrow> idsAt ev d \<inter> idsAt ev d' = {})"
  unfolding idsUniqueAcrossStore_def idsAt_def
  by (auto split: option.splits) blast+

lemma sameEvents_idsAt: "sameEvents ev ev' \<Longrightarrow> idsAt ev k = idsAt ev' k"
proof -
  assume "sameEvents ev ev'"
  then have m: "map_option mset (ev k) = map_option mset (ev' k)" by (simp add: sameEvents_def)
  show ?thesis
  proof (cases "ev k")
    case None
    with m show ?thesis by (simp add: idsAt_def)
  next
    case (Some es)
    with m obtain es' where e: "ev' k = Some es'" and ms: "mset es = mset es'"
      by (cases "ev' k") auto
    from ms have "set es = set es'" by (rule mset_eq_setD)
    with Some e show ?thesis by (simp add: idsAt_def)
  qed
qed

lemma sameEvents_within:
  assumes s: "sameEvents ev ev'" and w: "idsUniqueWithinDates ev'"
  shows "idsUniqueWithinDates ev"
  unfolding idsUniqueWithinDates_def
proof (intro allI impI)
  fix d es assume a: "ev d = Some es"
  from s have "map_option mset (ev d) = map_option mset (ev' d)" by (simp add: sameEvents_def)
  with a obtain es' where e: "ev' d = Some es'" and ms: "mset es = mset es'"
    by (cases "ev' d") auto
  from w e have "distinct (map id_ev es')" by (simp add: idsUniqueWithinDates_def)
  moreover from ms have "mset (map id_ev es) = mset (map id_ev es')" by simp
  ultimately show "distinct (map id_ev es)" using mset_eq_imp_distinct_iff by blast
qed

lemma sameEvents_across:
  "sameEvents ev ev' \<Longrightarrow> idsUniqueAcrossStore ev' \<Longrightarrow> idsUniqueAcrossStore ev"
  unfolding across_idsAt using sameEvents_within sameEvents_idsAt by metis

lemma sameEvents_dialog:
  "sameEvents ev ev' \<Longrightarrow> dialogIdLocal cur ev' \<Longrightarrow> dialogIdLocal cur ev"
  unfolding dialogIdLocal_def using sameEvents_idsAt by (auto split: option.splits)

lemma sameEvents_refl: "sameEvents ev ev"
  by (simp add: sameEvents_def)

lemma sameEvents_sym: "sameEvents ev ev' \<Longrightarrow> sameEvents ev' ev"
  by (simp add: sameEvents_def)

lemma sameEvents_trans: "sameEvents a b \<Longrightarrow> sameEvents b c \<Longrightarrow> sameEvents a c"
  by (simp add: sameEvents_def)

lemma sameEvents_sortedAt: "sameEvents (sortedAt K ev) ev"
  by (simp add: sameEvents_def sortedAt_mset)

lemma idsAt_storeIds: "idsAt ev k \<subseteq> storeIds ev"
  by (auto simp: idsAt_def storeIds_def ran_def split: option.splits)

text \<open>the update of the store by a save\<close>

lemma storeEvent_idsAt:
  "idsAt (storeEvent d i txt tm rem ev) k = (if k = d then insert i (idsAt ev d) else idsAt ev k)"
proof (cases "k = d")
  case False
  then show ?thesis by (simp add: idsAt_def storeEvent_other)
next
  case True
  note kd = True
  show ?thesis
  proof (cases "ev d")
    case None
    with kd show ?thesis by (simp add: idsAt_def storeEvent_new_bucket)
  next
    case (Some es)
    show ?thesis
    proof (cases "i \<in> id_ev ` set es")
      case False
      from storeEvent_append [of ev d es i "txt" tm rem] kd Some False show ?thesis
        by (simp add: idsAt_def)
    next
      case True
      note i = True
      from Some i storeEvent_replace [of ev d es i "txt" tm rem] obtain n where
        n: "n < length es" "id_ev (es ! n) = i"
        and u: "storeEvent d i txt tm rem ev d
           = Some (es[n := \<lparr>id_ev = i, text_ev = txt, time = tm, reminder = rem\<rparr>])" by blast
      have "map id_ev (es[n := \<lparr>id_ev = i, text_ev = txt, time = tm, reminder = rem\<rparr>]) = map id_ev es"
        using n by (simp add: map_update list_update_same_conv)
      then have "id_ev ` set (es[n := \<lparr>id_ev = i, text_ev = txt, time = tm, reminder = rem\<rparr>])
          = id_ev ` set es" by (metis set_map)
      with u kd Some i show ?thesis by (auto simp: idsAt_def)
    qed
  qed
qed

lemma storeEvent_within:
  assumes w: "idsUniqueWithinDates ev"
  shows "idsUniqueWithinDates (storeEvent d i txt tm rem ev)"
  unfolding idsUniqueWithinDates_def
proof (intro allI impI)
  fix k es' assume a: "storeEvent d i txt tm rem ev k = Some es'"
  show "distinct (map id_ev es')"
  proof (cases "k = d")
    case False
    with a w show ?thesis by (simp add: storeEvent_other idsUniqueWithinDates_def)
  next
    case True
    note kd = True
    show ?thesis
    proof (cases "ev d")
      case None
      with a kd show ?thesis by (auto simp: storeEvent_new_bucket)
    next
      case (Some es)
      with w have des: "distinct (map id_ev es)" by (simp add: idsUniqueWithinDates_def)
      show ?thesis
      proof (cases "i \<in> id_ev ` set es")
        case False
        from storeEvent_append [of ev d es i "txt" tm rem] a kd des False Some show ?thesis
          by auto
      next
        case True
        note i = True
        from Some i storeEvent_replace [of ev d es i "txt" tm rem] obtain n where
          n: "n < length es" "id_ev (es ! n) = i"
          and u: "storeEvent d i txt tm rem ev d
             = Some (es[n := \<lparr>id_ev = i, text_ev = txt, time = tm, reminder = rem\<rparr>])" by blast
        have "map id_ev (es[n := \<lparr>id_ev = i, text_ev = txt, time = tm, reminder = rem\<rparr>]) = map id_ev es"
          using n by (simp add: map_update list_update_same_conv)
        with u a kd des show ?thesis by auto
      qed
    qed
  qed
qed

lemma storeEvent_across:
  assumes "idsUniqueAcrossStore ev" and "dialogIdLocal (Some (d, i)) ev"
  shows "idsUniqueAcrossStore (storeEvent d i txt tm rem ev)"
  using assms unfolding across_idsAt dialogIdLocal_def
  by (auto simp: storeEvent_within storeEvent_idsAt)

text \<open>the update of the store by a deletion\<close>

lemma removeEvent_idsAt: "ev d = Some es \<Longrightarrow> idsAt (removeEvent d i es ev) k \<subseteq> idsAt ev k"
  by (auto simp: removeEvent_at idsAt_def split: if_splits option.splits)

lemma removeEvent_within:
  assumes "idsUniqueWithinDates ev" and "ev d = Some es"
  shows "idsUniqueWithinDates (removeEvent d i es ev)"
  using assms unfolding idsUniqueWithinDates_def removeEvent_at
  by (auto simp: distinct_map_filter split: if_splits)

lemma removeEvent_across:
  assumes a: "idsUniqueAcrossStore ev" and e: "ev d = Some es"
  shows "idsUniqueAcrossStore (removeEvent d i es ev)"
  unfolding across_idsAt
proof (intro conjI allI impI)
  from a e show "idsUniqueWithinDates (removeEvent d i es ev)"
    by (simp add: across_idsAt removeEvent_within)
next
  fix k k' :: string assume ne: "k \<noteq> k'"
  have s: "\<And>x. idsAt (removeEvent d i es ev) x \<subseteq> idsAt ev x"
    using removeEvent_idsAt [of ev d es i] e by blast
  from a ne have "idsAt ev k \<inter> idsAt ev k' = {}" by (simp add: across_idsAt)
  with s [of k] s [of k'] show "idsAt (removeEvent d i es ev) k \<inter> idsAt (removeEvent d i es ev) k' = {}"
    by blast
qed

lemma removeEvent_dialog:
  assumes a: "dialogIdLocal cur ev" and e: "ev d = Some es"
  shows "dialogIdLocal cur (removeEvent d i es ev)"
proof -
  have s: "\<And>x. idsAt (removeEvent d i es ev) x \<subseteq> idsAt ev x"
    using removeEvent_idsAt [of ev d es i] e by blast
  with a show ?thesis unfolding dialogIdLocal_def by (auto split: option.splits)
qed

lemma save_cases:
  "(events (saveEventBtn_click today eventInput tm rem st) = events st
      \<and> calendarEvents (saveEventBtn_click today eventInput tm rem st) = calendarEvents st
      \<and> currentEditingEvent (saveEventBtn_click today eventInput tm rem st) = currentEditingEvent st)
   \<or> (\<exists>d i. currentEditingEvent st = Some (d, i)
      \<and> calendarEvents (saveEventBtn_click today eventInput tm rem st)
          = Some (storeEvent d i (trim eventInput) tm rem (events st))
      \<and> events (saveEventBtn_click today eventInput tm rem st)
          = sortedAt (monthKeys (displayedDate st)) (storeEvent d i (trim eventInput) tm rem (events st))
      \<and> currentEditingEvent (saveEventBtn_click today eventInput tm rem st) = None)"
proof (cases "currentEditingEvent st")
  case None
  then show ?thesis by (simp add: saveEventBtn_click_def)
next
  case (Some p)
  obtain d i where p: "p = (d, i)" by (cases p)
  show ?thesis
  proof (cases "trim eventInput = [] \<or> (rem \<noteq> ''none'' \<and> tm = [])")
    case True
    with Some p show ?thesis by (auto simp: saveEventBtn_click_def Let_def)
  next
    case False
    with Some p have v: "saveEventBtn_click today eventInput tm rem st =
       closeEventModal (generateCalendar today (displayedDate st)
        (saveEvents (st\<lparr>events := storeEvent d i (trim eventInput) tm rem (events st)\<rparr>)))"
      by (intro save_valid) auto
    have "calendarEvents (saveEventBtn_click today eventInput tm rem st)
          = Some (storeEvent d i (trim eventInput) tm rem (events st))"
      unfolding v by (simp add: closeEventModal_def generateCalendar_frame saveEvents_def)
    moreover have "events (saveEventBtn_click today eventInput tm rem st)
          = sortedAt (monthKeys (displayedDate st)) (storeEvent d i (trim eventInput) tm rem (events st))"
      unfolding v by (simp add: closeEventModal_def generateCalendar_events saveEvents_def)
    moreover have "currentEditingEvent (saveEventBtn_click today eventInput tm rem st) = None"
      unfolding v by (simp add: closeEventModal_def)
    ultimately show ?thesis using Some p by blast
  qed
qed

lemma delete_cases:
  assumes "confirmYesBtn_click today d i st = Inr st'"
  shows "\<exists>es. events st d = Some es
      \<and> calendarEvents st' = Some (removeEvent d i es (events st))
      \<and> events st' = sortedAt (monthKeys (displayedDate st)) (removeEvent d i es (events st))
      \<and> currentEditingEvent st' = currentEditingEvent st"
proof (cases "events st d")
  case None
  with assms show ?thesis by (simp add: confirmYesBtn_click_def)
next
  case (Some es)
  with assms have s: "st' = generateCalendar today (displayedDate st)
                 (saveEvents
                    (st\<lparr>events := removeEvent d i es (events st),
                        sessionNotifiedIds := sessionNotifiedIds st - {i}\<rparr>))"
    by (simp add: confirmYesBtn_click_def)
  show ?thesis unfolding s using Some
    by (simp add: generateCalendar_frame generateCalendar_events saveEvents_def)
qed

lemma edit_cases:
  assumes "editEvent_click clock d i st = Inr st'"
  shows "events st' = events st \<and> calendarEvents st' = calendarEvents st
     \<and> (currentEditingEvent st' = Some (d, clock) \<or>
        (currentEditingEvent st' = Some (d, i) \<and> i \<in> idsAt (events st) d))"
proof (cases "events st d")
  case None
  with assms show ?thesis by (simp add: editEvent_click_def)
next
  case (Some es)
  with assms have s: "st' = openEventModal clock d (find (\<lambda>e. id_ev e = i) es) st"
    by (simp add: editEvent_click_def)
  show ?thesis
  proof (cases "find (\<lambda>e. id_ev e = i) es")
    case None
    with s show ?thesis by (simp add: openEventModal_def)
  next
    case f: (Some e)
    then have ie: "id_ev e = i" and "e \<in> set es" by (auto simp: find_Some_iff)
    then have "i \<in> idsAt (events st) d" using Some by (auto simp: idsAt_def)
    with s f ie show ?thesis by (simp add: openEventModal_def)
  qed
qed

lemma fresh_dialog:
  "clock \<notin> storeIds ev \<Longrightarrow> dialogIdLocal (Some (d, clock)) ev"
  using idsAt_storeIds [of ev] by (auto simp: dialogIdLocal_def)

lemma own_dialog:
  "idsUniqueAcrossStore ev \<Longrightarrow> i \<in> idsAt ev d \<Longrightarrow> dialogIdLocal (Some (d, i)) ev"
  unfolding across_idsAt dialogIdLocal_def by auto

lemma reachable_invariant:
  "reachable fresh st \<Longrightarrow>
     sameEvents (events st) (persistedStore st)
     \<and> idsUniqueWithinDates (events st)
     \<and> (fresh \<longrightarrow> idsUniqueAcrossStore (events st)
                   \<and> dialogIdLocal (currentEditingEvent st) (events st))"
proof (induction rule: reachable.induct)
  case (start today)
  show ?case
    by (simp add: sessionStart_def persistedStore_def sameEvents_def idsUniqueWithinDates_def
        idsUniqueAcrossStore_def dialogIdLocal_def)
next
  case (add st clock d)
  then show ?case
    by (auto simp: openEventModal_def persistedStore_def fresh_dialog)
next
  case (edit st clock d i st')
  from edit_cases [OF edit.hyps(3)] have e: "events st' = events st"
    and c: "calendarEvents st' = calendarEvents st"
    and cur: "currentEditingEvent st' = Some (d, clock) \<or>
        (currentEditingEvent st' = Some (d, i) \<and> i \<in> idsAt (events st) d)" by simp_all
  have "fresh \<longrightarrow> dialogIdLocal (currentEditingEvent st') (events st)"
    using cur edit.hyps(2) edit.IH fresh_dialog own_dialog by metis
  with edit.IH e c show ?case by (simp add: persistedStore_def)
next
  case (save st today eventInput tm rem)
  let ?st' = "saveEventBtn_click today eventInput tm rem st"
  from save_cases [of today eventInput tm rem st] show ?case
  proof
    assume "events ?st' = events st \<and> calendarEvents ?st' = calendarEvents st
      \<and> currentEditingEvent ?st' = currentEditingEvent st"
    with save.IH show ?thesis by (simp add: persistedStore_def)
  next
    assume "\<exists>d i. currentEditingEvent st = Some (d, i)
      \<and> calendarEvents ?st' = Some (storeEvent d i (trim eventInput) tm rem (events st))
      \<and> events ?st' = sortedAt (monthKeys (displayedDate st)) (storeEvent d i (trim eventInput) tm rem (events st))
      \<and> currentEditingEvent ?st' = None"
    then obtain d i where cur: "currentEditingEvent st = Some (d, i)"
      and c: "calendarEvents ?st' = Some (storeEvent d i (trim eventInput) tm rem (events st))"
      and e: "events ?st' = sortedAt (monthKeys (displayedDate st)) (storeEvent d i (trim eventInput) tm rem (events st))"
      and n: "currentEditingEvent ?st' = None" by blast
    let ?upd = "storeEvent d i (trim eventInput) tm rem (events st)"
    have s: "sameEvents (events ?st') ?upd" unfolding e by (rule sameEvents_sortedAt)
    have 1: "sameEvents (events ?st') (persistedStore ?st')"
      using s c by (simp add: persistedStore_def)
    have "idsUniqueWithinDates ?upd" using save.IH by (simp add: storeEvent_within)
    with s have 2: "idsUniqueWithinDates (events ?st')" by (rule sameEvents_within)
    have 3: "fresh \<longrightarrow> idsUniqueAcrossStore (events ?st')
                   \<and> dialogIdLocal (currentEditingEvent ?st') (events ?st')"
    proof
      assume fresh
      with save.IH cur have "idsUniqueAcrossStore (events st)"
        "dialogIdLocal (Some (d, i)) (events st)" by simp_all
      then have "idsUniqueAcrossStore ?upd" by (rule storeEvent_across)
      with s have "idsUniqueAcrossStore (events ?st')" by (rule sameEvents_across)
      then show "idsUniqueAcrossStore (events ?st')
                   \<and> dialogIdLocal (currentEditingEvent ?st') (events ?st')"
        using n by (simp add: dialogIdLocal_def)
    qed
    from 1 2 3 show ?thesis by blast
  qed
next
  case (cancel st)
  then show ?case by (simp add: closeEventModal_def persistedStore_def dialogIdLocal_def)
next
  case (delete st today d i st')
  from delete_cases [OF delete.hyps(2)] obtain es where ev: "events st d = Some es"
    and c: "calendarEvents st' = Some (removeEvent d i es (events st))"
    and e: "events st' = sortedAt (monthKeys (displayedDate st)) (removeEvent d i es (events st))"
    and cur: "currentEditingEvent st' = currentEditingEvent st" by blast
  let ?upd = "removeEvent d i es (events st)"
  have s: "sameEvents (events st') ?upd" unfolding e by (rule sameEvents_sortedAt)
  have 1: "sameEvents (events st') (persistedStore st')"
    using s c by (simp add: persistedStore_def)
  have "idsUniqueWithinDates ?upd" using delete.IH ev by (simp add: removeEvent_within)
  with s have 2: "idsUniqueWithinDates (events st')" by (rule sameEvents_within)
  have 3: "fresh \<longrightarrow> idsUniqueAcrossStore (events st')
                   \<and> dialogIdLocal (currentEditingEvent st') (events st')"
  proof
    assume fresh
    with delete.IH have a: "idsUniqueAcrossStore (events st)"
      and b: "dialogIdLocal (currentEditingEvent st) (events st)" by simp_all
    from a ev have "idsUniqueAcrossStore ?upd" by (rule removeEvent_across)
    with s have x: "idsUniqueAcrossStore (events st')" by (rule sameEvents_across)
    from b ev have "dialogIdLocal (currentEditingEvent st) ?upd" by (rule removeEvent_dialog)
    with s have "dialogIdLocal (currentEditingEvent st) (events st')" by (rule sameEvents_dialog)
    with x cur show "idsUniqueAcrossStore (events st')
                   \<and> dialogIdLocal (currentEditingEvent st') (events st')" by simp
  qed
  from 1 2 3 show ?case by blast
next
  case (scan st now)
  from checkReminders_shape [of now st] obtain new where
    a: "checkReminders now st = st\<lparr>notifications := notifications st @ new,
              sessionNotifiedIds := sessionNotifiedIds st \<union> set (map id_ev new)\<rparr>" by blast
  have "events (checkReminders now st) = events st"
    "calendarEvents (checkReminders now st) = calendarEvents st"
    "currentEditingEvent (checkReminders now st) = currentEditingEvent st"
    by (subst a, simp)+
  with scan.IH show ?case by (simp add: persistedStore_def)
next
  case (render st today d)
  let ?st' = "generateCalendar today d (st\<lparr>displayedDate := d\<rparr>)"
  have e: "events ?st' = sortedAt (monthKeys d) (events st)"
    by (simp add: generateCalendar_events)
  have c: "calendarEvents ?st' = calendarEvents st" "currentEditingEvent ?st' = currentEditingEvent st"
    by (simp_all add: generateCalendar_frame)
  have s: "sameEvents (events ?st') (events st)" unfolding e by (rule sameEvents_sortedAt)
  have 1: "sameEvents (events ?st') (persistedStore ?st')"
    using sameEvents_trans [OF s] render.IH c by (simp add: persistedStore_def)
  have 2: "idsUniqueWithinDates (events ?st')" using s render.IH sameEvents_within by blast
  have 3: "fresh \<longrightarrow> idsUniqueAcrossStore (events ?st')
                   \<and> dialogIdLocal (currentEditingEvent ?st') (events ?st')"
    using s render.IH sameEvents_across sameEvents_dialog c by metis
  from 1 2 3 show ?case by blast
next
  case (reload st today)
  let ?st' = "sessionStart today (calendarEvents st)"
  have e: "events ?st' = persistedStore st" "persistedStore ?st' = persistedStore st"
    "currentEditingEvent ?st' = None"
    by (simp_all add: sessionStart_def persistedStore_def)
  from reload.IH have s: "sameEvents (persistedStore st) (events st)" by (simp add: sameEvents_sym)
  have 1: "sameEvents (events ?st') (persistedStore ?st')" unfolding e by (rule sameEvents_refl)
  have 2: "idsUniqueWithinDates (events ?st')"
    unfolding e using s reload.IH sameEvents_within by blast
  have 3: "fresh \<longrightarrow> idsUniqueAcrossStore (events ?st')
                   \<and> dialogIdLocal (currentEditingEvent ?st') (events ?st')"
    unfolding e using s reload.IH sameEvents_across by (auto simp: dialogIdLocal_def)
  from 1 2 3 show ?case by blast
qed

lemma storeIds_idsAt: "storeIds ev = (\<Union>k. idsAt ev k)"
proof (rule set_eqI)
  fix i
  have "i \<in> storeIds ev \<longleftrightarrow> (\<exists>k es. ev k = Some es \<and> i \<in> id_ev ` set es)"
    by (simp add: storeIds_def ran_def) blast
  also have "\<dots> \<longleftrightarrow> (\<exists>k. i \<in> idsAt ev k)"
    by (auto simp: idsAt_def split: option.splits; blast)
  finally show "i \<in> storeIds ev \<longleftrightarrow> i \<in> (\<Union>k. idsAt ev k)" by simp
qed

lemma save_idsAt:
  assumes "currentEditingEvent st = Some (d, i)" "trim eventInput \<noteq> []"
    "\<not> (rem \<noteq> ''none'' \<and> tm = [])"
  shows "idsAt (events (saveEventBtn_click today eventInput tm rem st)) k
           = (if k = d then insert i (idsAt (events st) d) else idsAt (events st) k)"
proof -
  have "events (saveEventBtn_click today eventInput tm rem st)
      = sortedAt (monthKeys (displayedDate st)) (storeEvent d i (trim eventInput) tm rem (events st))"
    unfolding save_valid [OF assms]
    by (simp add: closeEventModal_def generateCalendar_events saveEvents_def)
  then have "idsAt (events (saveEventBtn_click today eventInput tm rem st)) k
      = idsAt (storeEvent d i (trim eventInput) tm rem (events st)) k"
    using sameEvents_idsAt [OF sameEvents_sortedAt] by simp
  then show ?thesis by (simp add: storeEvent_idsAt)
qed

lemma trim_plain: "trim ''Standup'' \<noteq> []" "trim ''Lunch'' \<noteq> []"
  by (simp_all add: trim_eval)

text \<open>
  C8 (as amended). In every state reached from an empty store by creating, editing and
  deleting events (and by scans, renders and reloads), the ids are unique within each date's
  list, in the store and in what is persisted. They are unique across the entire store
  provided that each reading of the clock that becomes the id of a new event differs from
  every id in the store: the code compares ids within the date of the dialog only.
\<close>

theorem ids_unique_in_reachable_stores:
  assumes "reachable fresh st"
  shows "idsUniqueWithinDates (events st)
       \<and> idsUniqueWithinDates (persistedStore st)
       \<and> (fresh \<longrightarrow> idsUniqueAcrossStore (events st) \<and> idsUniqueAcrossStore (persistedStore st))"
proof -
  from reachable_invariant [OF assms] have s: "sameEvents (events st) (persistedStore st)"
    and w: "idsUniqueWithinDates (events st)"
    and a: "fresh \<longrightarrow> idsUniqueAcrossStore (events st)" by simp_all
  from s have s': "sameEvents (persistedStore st) (events st)" by (rule sameEvents_sym)
  from s' w have "idsUniqueWithinDates (persistedStore st)" by (rule sameEvents_within)
  moreover from s' a have "fresh \<longrightarrow> idsUniqueAcrossStore (persistedStore st)"
    using sameEvents_across by blast
  ultimately show ?thesis using w a by blast
qed

theorem ids_unique_in_reachable_stores_witness:
  "reachable True
     (saveEventBtn_click (clockAt 2024 4 9 8 5) ''Lunch'' [] ''none''
        (openEventModal 1715300000001 ''2024-4-11'' None
           (saveEventBtn_click (clockAt 2024 4 9 8 1) ''Standup'' ''09:00'' ''none''
              (openEventModal 1715300000000 ''2024-4-10'' None
                 (sessionStart (clockAt 2024 4 9 8 0) None)))))
   \<and> idsUniqueAcrossStore
       (events
         (saveEventBtn_click (clockAt 2024 4 9 8 5) ''Lunch'' [] ''none''
            (openEventModal 1715300000001 ''2024-4-11'' None
               (saveEventBtn_click (clockAt 2024 4 9 8 1) ''Standup'' ''09:00'' ''none''
                  (openEventModal 1715300000000 ''2024-4-10'' None
                     (sessionStart (clockAt 2024 4 9 8 0) None))))))"
proof -
  let ?s0 = "sessionStart (clockAt 2024 4 9 8 0) None"
  let ?s1 = "openEventModal 1715300000000 ''2024-4-10'' None ?s0"
  let ?s2 = "saveEventBtn_click (clockAt 2024 4 9 8 1) ''Standup'' ''09:00'' ''none'' ?s1"
  let ?s3 = "openEventModal 1715300000001 ''2024-4-11'' None ?s2"
  let ?s4 = "saveEventBtn_click (clockAt 2024 4 9 8 5) ''Lunch'' [] ''none'' ?s3"
  have r0: "reachable True ?s0" by (rule reachable.start)
  have "storeIds (events ?s0) = {}" by (simp add: storeIds_idsAt idsAt_def sessionStart_def)
  then have r1: "reachable True ?s1" by (intro reachable.add [OF r0]) simp
  have r2: "reachable True ?s2" by (rule reachable.save [OF r1])
  have c1: "currentEditingEvent ?s1 = Some (''2024-4-10'', 1715300000000)"
    by (simp add: openEventModal_def)
  have "\<And>k. idsAt (events ?s2) k = (if k = ''2024-4-10'' then {1715300000000} else {})"
    by (subst save_idsAt [OF c1 trim_plain(1)])
       (simp_all add: idsAt_def openEventModal_def sessionStart_def)
  then have "1715300000001 \<notin> storeIds (events ?s2)" by (simp add: storeIds_idsAt)
  then have r3: "reachable True ?s3" by (intro reachable.add [OF r2]) simp
  have r4: "reachable True ?s4" by (rule reachable.save [OF r3])
  from ids_unique_in_reachable_stores [OF r4] r4 show ?thesis by simp
qed

text \<open>
  C8 as stated fails: two events created under two dates with the same reading of the clock
  have the same id.
\<close>

theorem ids_repeat_with_repeated_clock:
  "reachable False
     (saveEventBtn_click (clockAt 2024 4 9 8 5) ''Lunch'' [] ''none''
        (openEventModal 1715300000000 ''2024-4-11'' None
           (saveEventBtn_click (clockAt 2024 4 9 8 1) ''Standup'' ''09:00'' ''none''
              (openEventModal 1715300000000 ''2024-4-10'' None
                 (sessionStart (clockAt 2024 4 9 8 0) None)))))
   \<and> \<not> idsUniqueAcrossStore
       (events
         (saveEventBtn_click (clockAt 2024 4 9 8 5) ''Lunch'' [] ''none''
            (openEventModal 1715300000000 ''2024-4-11'' None
               (saveEventBtn_click (clockAt 2024 4 9 8 1) ''Standup'' ''09:00'' ''none''
                  (openEventModal 1715300000000 ''2024-4-10'' None
                     (sessionStart (clockAt 2024 4 9 8 0) None))))))"
proof -
  define s0 where "s0 = sessionStart (clockAt 2024 4 9 8 0) None"
  define s1 where "s1 = openEventModal 1715300000000 ''2024-4-10'' None s0"
  define s2 where "s2 = saveEventBtn_click (clockAt 2024 4 9 8 1) ''Standup'' ''09:00'' ''none'' s1"
  define s3 where "s3 = openEventModal 1715300000000 ''2024-4-11'' None s2"
  define s4 where "s4 = saveEventBtn_click (clockAt 2024 4 9 8 5) ''Lunch'' [] ''none'' s3"
  have r0: "reachable False s0" unfolding s0_def by (rule reachable.start)
  have r1: "reachable False s1" unfolding s1_def by (intro reachable.add [OF r0]) simp
  have r2: "reachable False s2" unfolding s2_def by (rule reachable.save [OF r1])
  have r3: "reachable False s3" unfolding s3_def by (intro reachable.add [OF r2]) simp
  have r4: "reachable False s4" unfolding s4_def by (rule reachable.save [OF r3])
  have c1: "currentEditingEvent s1 = Some (''2024-4-10'', 1715300000000)"
    by (simp add: s1_def openEventModal_def)
  have c3: "currentEditingEvent s3 = Some (''2024-4-11'', 1715300000000)"
    by (simp add: s3_def openEventModal_def)
  have v1: "\<not> (''none'' \<noteq> ''none'' \<and> ''09:00'' = [])" by simp
  have v2: "\<not> (''none'' \<noteq> ''none'' \<and> ([]::string) = [])" by simp
  have "idsAt (events s2) ''2024-4-10'' = insert 1715300000000 (idsAt (events s1) ''2024-4-10'')"
    unfolding s2_def by (subst save_idsAt [OF c1 trim_plain(1) v1]) simp
  then have a2: "1715300000000 \<in> idsAt (events s2) ''2024-4-10''" by simp
  have e3: "events s3 = events s2" by (simp add: s3_def openEventModal_def)
  have "idsAt (events s4) ''2024-4-10'' = idsAt (events s3) ''2024-4-10''"
    unfolding s4_def by (subst save_idsAt [OF c3 trim_plain(2) v2]) simp
  with a2 e3 have a: "1715300000000 \<in> idsAt (events s4) ''2024-4-10''" by simp
  have "idsAt (events s4) ''2024-4-11'' = insert 1715300000000 (idsAt (events s3) ''2024-4-11'')"
    unfolding s4_def by (subst save_idsAt [OF c3 trim_plain(2) v2]) simp
  then have b: "1715300000000 \<in> idsAt (events s4) ''2024-4-11''" by simp
  have ne: "''2024-4-10'' \<noteq> ''2024-4-11''" by simp
  have "\<not> idsUniqueAcrossStore (events s4)"
  proof
    assume "idsUniqueAcrossStore (events s4)"
    then have "\<forall>d d'. d \<noteq> d' \<longrightarrow> idsAt (events s4) d \<inter> idsAt (events s4) d' = {}"
      by (simp add: across_idsAt)
    then have "''2024-4-10'' \<noteq> ''2024-4-11'' \<longrightarrow>
        idsAt (events s4) ''2024-4-10'' \<inter> idsAt (events s4) ''2024-4-11'' = {}"
      by (elim allE)
    with ne have "idsAt (events s4) ''2024-4-10'' \<inter> idsAt (events s4) ''2024-4-11'' = {}"
      by (rule_tac mp)
    with a b show False by (simp add: disjoint_iff)
  qed
  with r4 have "reachable False s4 \<and> \<not> idsUniqueAcrossStore (events s4)" by (rule conjI)
  then show ?thesis unfolding s4_def s3_def s2_def s1_def s0_def .
qed

section \<open>The notified ids in a session\<close>

lemma save_frame:
  "sessionNotifiedIds (saveEventBtn_click today eventInput tm rem st) = sessionNotifiedIds st
   \<and> notifications (saveEventBtn_click today eventInput tm rem st) = notifications st"
proof (cases "currentEditingEvent st")
  case None
  then show ?thesis by (simp add: saveEventBtn_click_def)
next
  case (Some p)
  obtain d i where p: "p = (d, i)" by (cases p)
  show ?thesis
  proof (cases "trim eventInput = [] \<or> (rem \<noteq> ''none'' \<and> tm = [])")
    case True
    with Some p show ?thesis by (auto simp: saveEventBtn_click_def Let_def)
  next
    case False
    with Some p have v: "saveEventBtn_click today eventInput tm rem st =
       closeEventModal (generateCalendar today (displayedDate st)
        (saveEvents (st\<lparr>events := storeEvent d i (trim eventInput) tm rem (events st)\<rparr>)))"
      by (intro save_valid) auto
    show ?thesis unfolding v
      by (simp add: closeEventModal_def generateCalendar_frame saveEvents_def)
  qed
qed

lemma delete_frame:
  assumes "confirmYesBtn_click today d j st = Inr st'"
  shows "sessionNotifiedIds st' = sessionNotifiedIds st - {j} \<and> notifications st' = notifications st"
proof (cases "events st d")
  case None
  with assms show ?thesis by (simp add: confirmYesBtn_click_def)
next
  case (Some es)
  with assms have s: "st' = generateCalendar today (displayedDate st)
                 (saveEvents
                    (st\<lparr>events := removeEvent d j es (events st),
                        sessionNotifiedIds := sessionNotifiedIds st - {j}\<rparr>))"
    by (simp add: confirmYesBtn_click_def)
  show ?thesis unfolding s by (simp add: generateCalendar_frame saveEvents_def)
qed

lemma edit_frame:
  assumes "editEvent_click clock d j st = Inr st'"
  shows "sessionNotifiedIds st' = sessionNotifiedIds st \<and> notifications st' = notifications st"
  using assms by (auto simp: editEvent_click_def openEventModal_def split: option.splits)

lemma perform_keeps_notified:
  assumes i: "i \<in> sessionNotifiedIds st" and a: "\<not> deletes i a"
  shows "\<exists>new. notifications (perform a st) = notifications st @ new
           \<and> (\<forall>e\<in>set new. id_ev e \<noteq> i)
           \<and> i \<in> sessionNotifiedIds (perform a st)"
proof (cases a)
  case (AddClick clock d)
  with i show ?thesis by (simp add: openEventModal_def)
next
  case (EditClick clock d j)
  show ?thesis
  proof (cases "editEvent_click clock d j st")
    case (Inl err)
    with EditClick i show ?thesis by simp
  next
    case (Inr st')
    from edit_frame [OF Inr] EditClick Inr i show ?thesis by simp
  qed
next
  case (SaveClick today eventInput tm rem)
  with save_frame [of today eventInput tm rem st] i show ?thesis by simp
next
  case CancelClick
  with i show ?thesis by (simp add: closeEventModal_def)
next
  case (DeleteConfirm today d j)
  with a have ne: "j \<noteq> i" by simp
  show ?thesis
  proof (cases "confirmYesBtn_click today d j st")
    case (Inl err)
    with DeleteConfirm i show ?thesis by simp
  next
    case (Inr st')
    from delete_frame [OF Inr] DeleteConfirm Inr i ne show ?thesis by simp
  qed
next
  case (Scan now)
  from checkReminders_shape [of now st] obtain new where
    s: "checkReminders now st = st\<lparr>notifications := notifications st @ new,
              sessionNotifiedIds := sessionNotifiedIds st \<union> set (map id_ev new)\<rparr>"
    and d: "set (map id_ev new) \<inter> sessionNotifiedIds st = {}" by blast
  have n: "notifications (checkReminders now st) = notifications st @ new"
    and m: "sessionNotifiedIds (checkReminders now st) = sessionNotifiedIds st \<union> set (map id_ev new)"
    by (subst s, simp)+
  from d i have "\<forall>e\<in>set new. id_ev e \<noteq> i" by auto
  with n m i Scan show ?thesis by simp
next
  case (Render today d)
  with i show ?thesis by (simp add: generateCalendar_frame)
qed

lemma run_keeps_notified:
  assumes "i \<in> sessionNotifiedIds st" and "\<forall>a\<in>set acts. \<not> deletes i a"
  shows "\<exists>new. notifications (run acts st) = notifications st @ new
           \<and> (\<forall>e\<in>set new. id_ev e \<noteq> i)
           \<and> i \<in> sessionNotifiedIds (run acts st)"
  using assms
proof (induction acts arbitrary: st)
  case Nil
  then show ?case by (simp add: run_def)
next
  case (Cons a acts)
  from Cons.prems have na: "\<not> deletes i a" and rest: "\<forall>a\<in>set acts. \<not> deletes i a" by simp_all
  from perform_keeps_notified [OF Cons.prems(1) na] obtain new1 where
    n1: "notifications (perform a st) = notifications st @ new1"
    and f1: "\<forall>e\<in>set new1. id_ev e \<noteq> i"
    and i1: "i \<in> sessionNotifiedIds (perform a st)" by blast
  from Cons.IH [OF i1 rest] obtain new2 where
    n2: "notifications (run acts (perform a st)) = notifications (perform a st) @ new2"
    and f2: "\<forall>e\<in>set new2. id_ev e \<noteq> i"
    and i2: "i \<in> sessionNotifiedIds (run acts (perform a st))" by blast
  have r: "run (a # acts) st = run acts (perform a st)" by (simp add: run_def)
  have "notifications (run (a # acts) st) = notifications st @ (new1 @ new2)"
    unfolding r n2 n1 by simp
  moreover have "\<forall>e\<in>set (new1 @ new2). id_ev e \<noteq> i" using f1 f2 by auto
  ultimately show ?case using i2 unfolding r by blast
qed

text \<open>
  C2 (as amended). For every id and every \<open>now\<close>, two scans in succession with the same
  \<open>now\<close> show at most one notification for that id. An id that is in the set of notified
  ids is skipped by every later scan of the session, and stays in the set, as long as no
  deletion of an event of that id is confirmed in between, whatever else is done; confirming
  the deletion of an event of a date that has events removes its id from the set.
\<close>

theorem scanReminders_idempotent_per_id:
  "length (filter (\<lambda>e. id_ev e = i)
       (emitted st (checkReminders now (checkReminders now st)))) \<le> 1
   \<and> (i \<in> sessionNotifiedIds st \<and> (\<forall>a\<in>set acts. \<not> deletes i a) \<longrightarrow>
        filter (\<lambda>e. id_ev e = i) (emitted st (run acts st)) = []
        \<and> i \<in> sessionNotifiedIds (run acts st))
   \<and> (\<forall>today d es. events st d = Some es \<longrightarrow>
        i \<notin> sessionNotifiedIds (perform (DeleteConfirm today d i) st))"
proof -
  have 1: "length (filter (\<lambda>e. id_ev e = i)
       (emitted st (checkReminders now (checkReminders now st)))) \<le> 1"
    using scans_emitted [of i st "[now, now]"] by (simp add: scans_def)
  have 2: "i \<in> sessionNotifiedIds st \<and> (\<forall>a\<in>set acts. \<not> deletes i a) \<longrightarrow>
        filter (\<lambda>e. id_ev e = i) (emitted st (run acts st)) = []
        \<and> i \<in> sessionNotifiedIds (run acts st)"
  proof
    assume h: "i \<in> sessionNotifiedIds st \<and> (\<forall>a\<in>set acts. \<not> deletes i a)"
    then obtain new where n: "notifications (run acts st) = notifications st @ new"
      and f: "\<forall>e\<in>set new. id_ev e \<noteq> i"
      and k: "i \<in> sessionNotifiedIds (run acts st)"
      using run_keeps_notified [of i st acts] by blast
    have "emitted st (run acts st) = new" by (simp add: emitted_def n)
    with f k show "filter (\<lambda>e. id_ev e = i) (emitted st (run acts st)) = []
        \<and> i \<in> sessionNotifiedIds (run acts st)"
      by (simp add: filter_empty_conv)
  qed
  have 3: "\<forall>today d es. events st d = Some es \<longrightarrow>
        i \<notin> sessionNotifiedIds (perform (DeleteConfirm today d i) st)"
  proof (intro allI impI)
    fix today d es assume e: "events st d = Some es"
    then obtain st' where r: "confirmYesBtn_click today d i st = Inr st'"
      by (simp add: confirmYesBtn_click_def)
    from delete_frame [OF r] r show "i \<notin> sessionNotifiedIds (perform (DeleteConfirm today d i) st)"
      by simp
  qed
  from 1 2 3 show ?thesis by (intro conjI)
qed

theorem scanReminders_idempotent_per_id_witness:
  "7 \<in> sessionNotifiedIds
         (checkReminders (clockAt 2024 4 10 13 31)
            (sessionStart (clockAt 2024 4 10 13 0)
               (Some [''2024-4-10'' \<mapsto>
                  [\<lparr>id_ev = 7, text_ev = ''Meeting'', time = ''14:00'', reminder = ''30''\<rparr>]])))
   \<and> filter (\<lambda>e. id_ev e = 7)
        (emitted
           (checkReminders (clockAt 2024 4 10 13 31)
              (sessionStart (clockAt 2024 4 10 13 0)
                 (Some [''2024-4-10'' \<mapsto>
                    [\<lparr>id_ev = 7, text_ev = ''Meeting'', time = ''14:00'', reminder = ''30''\<rparr>]])))
           (run [Scan (clockAt 2024 4 10 13 31),
                 EditClick 8 ''2024-4-10'' 7,
                 SaveClick (clockAt 2024 4 10 13 32) ''Meeting moved'' ''13:50'' ''10'',
                 DeleteConfirm (clockAt 2024 4 10 13 32) ''2024-4-10'' 9,
                 Scan (clockAt 2024 4 10 13 45)]
              (checkReminders (clockAt 2024 4 10 13 31)
                 (sessionStart (clockAt 2024 4 10 13 0)
                    (Some [''2024-4-10'' \<mapsto>
                       [\<lparr>id_ev = 7, text_ev = ''Meeting'', time = ''14:00'', reminder = ''30''\<rparr>]])))))
      = []"
proof -
  let ?s = "checkReminders (clockAt 2024 4 10 13 31)
              (sessionStart (clockAt 2024 4 10 13 0)
                 (Some [''2024-4-10'' \<mapsto>
                    [\<lparr>id_ev = 7, text_ev = ''Meeting'', time = ''14:00'', reminder = ''30''\<rparr>]]))"
  let ?acts = "[Scan (clockAt 2024 4 10 13 31),
                 EditClick 8 ''2024-4-10'' 7,
                 SaveClick (clockAt 2024 4 10 13 32) ''Meeting moved'' ''13:50'' ''10'',
                 DeleteConfirm (clockAt 2024 4 10 13 32) ''2024-4-10'' 9,
                 Scan (clockAt 2024 4 10 13 45)]"
  have h: "7 \<in> sessionNotifiedIds ?s" by (simp add: scan_eval)
  have a: "\<forall>a\<in>set ?acts. \<not> deletes 7 a" by simp
  from scanReminders_idempotent_per_id [of 7 ?s "clockAt 2024 4 10 13 31" ?acts] h a
  show ?thesis by (simp only: simp_thms)
qed

lemma sortedAt_single: "ev k = Some [x] \<Longrightarrow> sortedAt K ev k = Some [x]"
  by (simp add: sortedAt_def sortBy_def)

lemma sortedAt_none: "ev k = None \<Longrightarrow> sortedAt K ev k = None"
  by (simp add: sortedAt_def)

lemma scan_due_single:
  assumes "events st ''2024-4-10'' = Some [e]"
    and "time e = ''14:00''" and "reminder e = ''30''"
    and "id_ev e \<notin> sessionNotifiedIds st"
  shows "checkReminders (clockAt 2024 4 10 13 31) st
      = st\<lparr>notifications := notifications st @ [e],
           sessionNotifiedIds := insert (id_ev e) (sessionNotifiedIds st)\<rparr>"
  using assms by (simp add: scan_eval)

lemma save_state:
  assumes "currentEditingEvent st = Some (d, i)" "trim eventInput \<noteq> []"
    "\<not> (rem \<noteq> ''none'' \<and> tm = [])"
  shows "events (saveEventBtn_click today eventInput tm rem st)
           = sortedAt (monthKeys (displayedDate st)) (storeEvent d i (trim eventInput) tm rem (events st))"
    and "currentEditingEvent (saveEventBtn_click today eventInput tm rem st) = None"
    and "sessionNotifiedIds (saveEventBtn_click today eventInput tm rem st) = sessionNotifiedIds st"
    and "notifications (saveEventBtn_click today eventInput tm rem st) = notifications st"
  unfolding save_valid [OF assms]
  by (simp_all add: closeEventModal_def generateCalendar_events generateCalendar_frame
      saveEvents_def)

text \<open>
  C2 as stated fails: an event is created and notified by a scan; it is then opened in the
  dialog, deleted, which removes its id from the set, and saved again; the next scan, at the
  same time as the first, notifies the same id once more.
\<close>

theorem notified_again_after_delete:
  "7 \<in> sessionNotifiedIds
         (run [AddClick 7 ''2024-4-10'',
               SaveClick (clockAt 2024 4 10 13 0) ''Meeting'' ''14:00'' ''30'',
               Scan (clockAt 2024 4 10 13 31)]
            (sessionStart (clockAt 2024 4 10 13 0) None))
   \<and> emitted
        (run [AddClick 7 ''2024-4-10'',
              SaveClick (clockAt 2024 4 10 13 0) ''Meeting'' ''14:00'' ''30'',
              Scan (clockAt 2024 4 10 13 31)]
           (sessionStart (clockAt 2024 4 10 13 0) None))
        (run [EditClick 8 ''2024-4-10'' 7,
              DeleteConfirm (clockAt 2024 4 10 13 31) ''2024-4-10'' 7,
              SaveClick (clockAt 2024 4 10 13 31) ''Meeting'' ''14:00'' ''30'',
              Scan (clockAt 2024 4 10 13 31)]
           (run [AddClick 7 ''2024-4-10'',
                 SaveClick (clockAt 2024 4 10 13 0) ''Meeting'' ''14:00'' ''30'',
                 Scan (clockAt 2024 4 10 13 31)]
              (sessionStart (clockAt 2024 4 10 13 0) None)))
      = [\<lparr>id_ev = 7, text_ev = ''Meeting'', time = ''14:00'', reminder = ''30''\<rparr>]"
proof -
  define e where "e = \<lparr>id_ev = 7, text_ev = ''Meeting'', time = ''14:00'', reminder = ''30''\<rparr>"
  define k where "k = ''2024-4-10''"
  define t0 where "t0 = clockAt 2024 4 10 13 0"
  define now where "now = clockAt 2024 4 10 13 31"
  define s0 where "s0 = sessionStart t0 None"
  define s1 where "s1 = openEventModal 7 k None s0"
  define s2 where "s2 = saveEventBtn_click t0 ''Meeting'' ''14:00'' ''30'' s1"
  define s3 where "s3 = checkReminders now s2"
  define s4 where "s4 = openEventModal 8 k (Some e) s3"
  define s5 where "s5 = generateCalendar now (displayedDate s4)
                 (saveEvents
                    (s4\<lparr>events := removeEvent k 7 [e] (events s4),
                        sessionNotifiedIds := sessionNotifiedIds s4 - {7}\<rparr>))"
  define s6 where "s6 = saveEventBtn_click now ''Meeting'' ''14:00'' ''30'' s5"
  define s7 where "s7 = checkReminders now s6"
  have tr: "trim ''Meeting'' = ''Meeting''" by (simp add: trim_eval)
  have tn: "trim ''Meeting'' \<noteq> []" by (simp add: tr)
  have v: "\<not> (''30'' \<noteq> ''none'' \<and> ''14:00'' = [])" by simp
  have ef: "time e = ''14:00''" "reminder e = ''30''" "id_ev e = 7" by (simp_all add: e_def)
  \<comment> \<open>the event is created\<close>
  have c1: "currentEditingEvent s1 = Some (k, 7)" by (simp add: s1_def openEventModal_def)
  have e1: "events s1 k = None" by (simp add: s1_def s0_def openEventModal_def sessionStart_def)
  have n1: "sessionNotifiedIds s1 = {}" "notifications s1 = []"
    by (simp_all add: s1_def s0_def openEventModal_def sessionStart_def)
  have "storeEvent k 7 (trim ''Meeting'') ''14:00'' ''30'' (events s1) k = Some [e]"
    using e1 by (simp add: storeEvent_new_bucket tr e_def)
  then have e2: "events s2 k = Some [e]"
    unfolding s2_def save_state(1) [OF c1 tn v] by (rule sortedAt_single)
  have n2: "sessionNotifiedIds s2 = {}" "notifications s2 = []"
    unfolding s2_def save_state(3,4) [OF c1 tn v] by (rule n1)+
  \<comment> \<open>the first scan notifies it\<close>
  have x3: "s3 = s2\<lparr>notifications := notifications s2 @ [e],
           sessionNotifiedIds := insert (id_ev e) (sessionNotifiedIds s2)\<rparr>"
    unfolding s3_def now_def
    by (rule scan_due_single) (use e2 ef n2 in \<open>simp_all add: k_def\<close>)
  have e3: "events s3 k = Some [e]" and n3: "sessionNotifiedIds s3 = {7}" "notifications s3 = [e]"
    unfolding x3 using e2 n2 ef by simp_all
  \<comment> \<open>the event is opened in the dialog and deleted\<close>
  have ed: "editEvent_click 8 k 7 s3 = Inr s4"
    using e3 by (simp add: editEvent_click_def s4_def e_def)
  have c4: "currentEditingEvent s4 = Some (k, 7)" by (simp add: s4_def openEventModal_def e_def)
  have e4: "events s4 k = Some [e]" and n4: "sessionNotifiedIds s4 = {7}" "notifications s4 = [e]"
    using e3 n3 by (simp_all add: s4_def openEventModal_def)
  have de: "confirmYesBtn_click now k 7 s4 = Inr s5"
    using e4 by (simp add: confirmYesBtn_click_def s5_def)
  have c5: "currentEditingEvent s5 = Some (k, 7)"
    unfolding s5_def by (simp add: generateCalendar_frame saveEvents_def c4)
  have n5: "sessionNotifiedIds s5 = {}" "notifications s5 = [e]"
    unfolding s5_def by (simp_all add: generateCalendar_frame saveEvents_def n4)
  have "removeEvent k 7 [e] (events s4) k = None" by (simp add: removeEvent_at e_def)
  then have e5: "events s5 k = None"
    unfolding s5_def by (simp add: generateCalendar_events saveEvents_def sortedAt_none)
  \<comment> \<open>the dialog is saved and the event is notified again\<close>
  have "storeEvent k 7 (trim ''Meeting'') ''14:00'' ''30'' (events s5) k = Some [e]"
    using e5 by (simp add: storeEvent_new_bucket tr e_def)
  then have e6: "events s6 k = Some [e]"
    unfolding s6_def save_state(1) [OF c5 tn v] by (rule sortedAt_single)
  have n6: "sessionNotifiedIds s6 = {}" "notifications s6 = [e]"
    unfolding s6_def save_state(3,4) [OF c5 tn v] by (rule n5)+
  have x7: "s7 = s6\<lparr>notifications := notifications s6 @ [e],
           sessionNotifiedIds := insert (id_ev e) (sessionNotifiedIds s6)\<rparr>"
    unfolding s7_def now_def
    by (rule scan_due_single) (use e6 ef n6 in \<open>simp_all add: k_def\<close>)
  have n7: "notifications s7 = [e, e]" unfolding x7 using n6 by simp
  have r3: "run [AddClick 7 k, SaveClick t0 ''Meeting'' ''14:00'' ''30'', Scan now] s0 = s3"
    by (simp add: run_def s3_def s2_def s1_def)
  have r7: "run [EditClick 8 k 7, DeleteConfirm now k 7,
                 SaveClick now ''Meeting'' ''14:00'' ''30'', Scan now] s3 = s7"
    by (simp add: run_def ed de s7_def s6_def)
  have "7 \<in> sessionNotifiedIds s3 \<and> emitted s3 s7 = [e]"
    by (simp add: n3 n7 emitted_def)
  then have "7 \<in> sessionNotifiedIds
         (run [AddClick 7 k, SaveClick t0 ''Meeting'' ''14:00'' ''30'', Scan now] s0)
     \<and> emitted (run [AddClick 7 k, SaveClick t0 ''Meeting'' ''14:00'' ''30'', Scan now] s0)
         (run [EditClick 8 k 7, DeleteConfirm now k 7,
                 SaveClick now ''Meeting'' ''14:00'' ''30'', Scan now]
            (run [AddClick 7 k, SaveClick t0 ''Meeting'' ''14:00'' ''30'', Scan now] s0)) = [e]"
    unfolding r3 r7 .
  then show ?thesis unfolding s0_def t0_def now_def k_def e_def .
qed

section \<open>Properties of the offline cache worker\<close>

lemma caches_match_None:
  "caches_match cs q = None \<longleftrightarrow> (\<forall>(n, c) \<in> set cs. cache_match c q = None)"
  by (induction cs) (auto split: option.splits)

lemma cache_match_None: "cache_match c q = None \<longleftrightarrow> (\<forall>entry \<in> set c. \<not> requestMatches q entry)"
  by (auto simp: cache_match_def find_None_iff)













end
